theory Spec2Isabelle
  imports Complex_Main "HOL-Library.Word" "HOL-Library.Product_Lexorder"
begin

section \<open>JavaScript values\<close>

text \<open>
  A JavaScript string is a sequence of UTF-16 code units; \<open>s.length\<close> counts them and
  \<open>s[i]\<close> reads one (\<open>undefined\<close>, here \<open>None\<close>, outside \<open>0 \<le> i < s.length\<close>).
  \<open>js\<close> writes an ASCII literal as such a sequence.
\<close>

type_synonym codeunit = "16 word"
type_synonym jsstring = "codeunit list"

definition js :: "string \<Rightarrow> jsstring" where
  "js s = map of_char s"

definition charAt :: "jsstring \<Rightarrow> int \<Rightarrow> codeunit option" where
  "charAt s i = (if 0 \<le> i \<and> i < int (length s) then Some (s ! nat i) else None)"

abbreviation NL :: codeunit where "NL \<equiv> 0x0A"
abbreviation CR :: codeunit where "CR \<equiv> 0x0D"
abbreviation TAB :: codeunit where "TAB \<equiv> 0x09"
abbreviation SPACE :: codeunit where "SPACE \<equiv> 0x20"
abbreviation BOM :: codeunit where "BOM \<equiv> 0xFEFF"

text \<open>
  A JavaScript \<open>number\<close> that reaches the code from outside: a finite value, an infinity
  or NaN. The counters and offsets the code computes itself are integers and are modelled
  as \<open>int\<close>.
\<close>

datatype jsnum = Fin real | PosInf | NegInf | NaN

section \<open>Shared types\<close>

text \<open>\<open>TextRange = {start, end}\<close>; \<open>end\<close> and \<open>text\<close> are reserved words here and carry a prime.\<close>

record 'n TextRange =
  start :: 'n
  end' :: 'n

datatype Mark = UNTOUCHED | CORRECT | INCORRECT | COLLATERAL

section \<open>The normalizer\<close>

fun replaceCRLF :: "jsstring \<Rightarrow> jsstring" where
  \<comment> \<open>\<open>text.replace(/\r\n/g, '\n')\<close>: left to right, matches do not overlap.\<close>
  "replaceCRLF (c # d # rest) =
     (if c = CR \<and> d = NL then NL # replaceCRLF rest else c # replaceCRLF (d # rest))"
| "replaceCRLF cs = cs"

definition replaceCR :: "jsstring \<Rightarrow> jsstring" where
  \<comment> \<open>\<open>text.replace(/\r/g, '\n')\<close>\<close>
  "replaceCR cs = map (\<lambda>c. if c = CR then NL else c) cs"

definition replaceTabs :: "jsstring \<Rightarrow> jsstring \<Rightarrow> jsstring" where
  \<comment> \<open>\<open>text.replace(/\t/g, sub)\<close>\<close>
  "replaceTabs sub cs = concat (map (\<lambda>c. if c = TAB then sub else [c]) cs)"

definition coerceTabWidth :: "jsnum \<Rightarrow> nat" where
  \<comment> \<open>\<open>Number.isFinite(tabWidth) ? Math.max(0, Math.floor(tabWidth)) : 4\<close>\<close>
  "coerceTabWidth w = (case w of Fin r \<Rightarrow> nat (max 0 \<lfloor>r\<rfloor>) | _ \<Rightarrow> 4)"

definition normalizeText :: "jsstring \<Rightarrow> jsnum \<Rightarrow> jsstring" where
  "normalizeText input tabWidth =
     (let t1 = (if charAt input 0 = Some BOM then drop 1 input else input);
          t2 = replaceCR (replaceCRLF t1);
          width = coerceTabWidth tabWidth
      in if width > 0 then replaceTabs (replicate width SPACE) t2
         else replaceTabs [] t2)"

section \<open>The segmenter\<close>

record TextSegmentWithOffsets =
  index :: nat
  startLine :: nat
  endLine :: nat
  text' :: jsstring
  startOffset :: nat
  endOffset :: nat

fun splitLines :: "jsstring \<Rightarrow> jsstring list" where
  \<comment> \<open>\<open>normalized.split('\n')\<close>; the empty string gives one empty line.\<close>
  "splitLines [] = [[]]"
| "splitLines (c # cs) =
     (if c = NL then [] # splitLines cs
      else (case splitLines cs of [] \<Rightarrow> [[c]] | l # ls \<Rightarrow> (c # l) # ls))"

fun lineStartOffsetsFrom :: "nat \<Rightarrow> jsstring list \<Rightarrow> nat list" where
  "lineStartOffsetsFrom offset [] = []"
| "lineStartOffsetsFrom offset (l # ls) = offset # lineStartOffsetsFrom (offset + length l + 1) ls"

definition slice :: "'a list \<Rightarrow> nat \<Rightarrow> nat \<Rightarrow> 'a list" where
  \<comment> \<open>\<open>s.slice(a, b)\<close> for \<open>0 \<le> a\<close> and \<open>0 \<le> b\<close>\<close>
  "slice s a b = take (b - a) (drop a s)"

text \<open>The mutable variables of \<open>splitNormalizedByLinesWithOffsets\<close>.\<close>

record SegmenterVars =
  segments :: "TextSegmentWithOffsets list"
  nextIndex :: nat
  segmentStartLine :: nat
  currentLinesCount :: nat
  currentChars :: nat

definition pushSegment ::
  "jsstring \<Rightarrow> jsstring list \<Rightarrow> nat list \<Rightarrow> SegmenterVars \<Rightarrow> nat \<Rightarrow> SegmenterVars" where
  "pushSegment normalized lines lineStartOffsets v endLn =
     (let startLineIndex = segmentStartLine v - 1;
          endLineIndex = endLn - 1;
          startOff = lineStartOffsets ! startLineIndex;
          endOff = lineStartOffsets ! endLineIndex + length (lines ! endLineIndex)
      in v\<lparr>segments := segments v @
               [\<lparr>index = nextIndex v, startLine = segmentStartLine v, endLine = endLn,
                 text' = slice normalized startOff endOff,
                 startOffset = startOff, endOffset = endOff\<rparr>],
             nextIndex := nextIndex v + 1,
             segmentStartLine := endLn + 1,
             currentLinesCount := 0,
             currentChars := 0\<rparr>)"

function sliceLoop ::
  "jsstring \<Rightarrow> nat \<Rightarrow> nat \<Rightarrow> nat \<Rightarrow> nat \<Rightarrow> SegmenterVars \<Rightarrow> SegmenterVars" where
  \<comment> \<open>\<open>for (offset = 0; offset < line.length; offset += charLimit)\<close>. \<open>charLimit\<close> is at least 1
      where the loop is entered (\<open>Math.max(1, \<dots>)\<close>); the guard \<open>0 < charLimit\<close> only makes the
      model total.\<close>
  "sliceLoop line lineNumber lineStartOffset charLimit offset v =
     (if offset < length line \<and> 0 < charLimit then
        (let slc = slice line offset (offset + charLimit)
         in sliceLoop line lineNumber lineStartOffset charLimit (offset + charLimit)
              (v\<lparr>segments := segments v @
                    [\<lparr>index = nextIndex v, startLine = lineNumber, endLine = lineNumber,
                      text' = slc,
                      startOffset = lineStartOffset + offset,
                      endOffset = lineStartOffset + offset + length slc\<rparr>],
                  nextIndex := nextIndex v + 1\<rparr>))
      else v)"
  by pat_completeness auto
termination
  by (relation "measure (\<lambda>(line, lineNumber, lineStartOffset, charLimit, offset, v). length line - offset)") auto

declare sliceLoop.simps [simp del]

definition coercePer :: "jsnum \<Rightarrow> nat" where
  \<comment> \<open>\<open>Number.isFinite(linesPerSegment) ? Math.max(1, Math.floor(linesPerSegment)) : 200\<close>\<close>
  "coercePer n = (case n of Fin r \<Rightarrow> nat (max 1 \<lfloor>r\<rfloor>) | _ \<Rightarrow> 200)"

definition coerceCharLimit :: "jsnum \<Rightarrow> nat option" where
  \<comment> \<open>\<open>Number.isFinite(m) && m > 0 ? Math.max(1, Math.floor(m)) : Number.POSITIVE_INFINITY\<close>;
      \<open>None\<close> is the infinity.\<close>
  "coerceCharLimit m =
     (case m of Fin r \<Rightarrow> if r > 0 then Some (nat (max 1 \<lfloor>r\<rfloor>)) else None | _ \<Rightarrow> None)"

definition exceedsLimit :: "nat \<Rightarrow> nat option \<Rightarrow> bool" where
  \<comment> \<open>\<open>n > charLimit\<close>\<close>
  "exceedsLimit n charLimit = (case charLimit of None \<Rightarrow> False | Some c \<Rightarrow> n > c)"

definition segmentLine ::
  "jsstring \<Rightarrow> jsstring list \<Rightarrow> nat list \<Rightarrow> nat \<Rightarrow> nat option \<Rightarrow> SegmenterVars \<Rightarrow> nat \<Rightarrow> SegmenterVars" where
  \<comment> \<open>One turn of the \<open>for\<close> over the lines.\<close>
  "segmentLine normalized lines lineStartOffsets per charLimit v lineIndex =
     (let lineNumber = lineIndex + 1;
          line = lines ! lineIndex;
          lineChars = length line;
          extraChars = (if currentLinesCount v = 0 then lineChars else 1 + lineChars);
          wouldExceedLines = (currentLinesCount v \<ge> per);
          wouldExceedChars = exceedsLimit (currentChars v + extraChars) charLimit;
          v1 = (if currentLinesCount v > 0 \<and> (wouldExceedLines \<or> wouldExceedChars)
                then pushSegment normalized lines lineStartOffsets v (lineNumber - 1) else v)
      in if charLimit \<noteq> None \<and> exceedsLimit lineChars charLimit then
           (let v2 = (if currentLinesCount v1 > 0
                      then pushSegment normalized lines lineStartOffsets v1 (lineNumber - 1) else v1);
                v3 = sliceLoop line lineNumber (lineStartOffsets ! lineIndex) (the charLimit) 0 v2
            in v3\<lparr>segmentStartLine := lineNumber + 1, currentLinesCount := 0, currentChars := 0\<rparr>)
         else
           (let v2 = v1\<lparr>currentLinesCount := currentLinesCount v1 + 1,
                        currentChars := currentChars v1 + extraChars\<rparr>
            in if currentLinesCount v2 \<ge> per
               then pushSegment normalized lines lineStartOffsets v2 lineNumber else v2))"

definition splitNormalizedByLinesWithOffsets ::
  "jsstring \<Rightarrow> jsnum \<Rightarrow> jsnum \<Rightarrow> TextSegmentWithOffsets list" where
  "splitNormalizedByLinesWithOffsets normalized linesPerSegment maxSegmentChars =
     (let lines = splitLines normalized;
          per = coercePer linesPerSegment;
          charLimit = coerceCharLimit maxSegmentChars;
          lineStartOffsets = lineStartOffsetsFrom 0 lines;
          v0 = \<lparr>segments = [], nextIndex = 0, segmentStartLine = 1,
                currentLinesCount = 0, currentChars = 0\<rparr>;
          v1 = foldl (segmentLine normalized lines lineStartOffsets per charLimit) v0
                 [0 ..< length lines];
          v2 = (if currentLinesCount v1 > 0
                then pushSegment normalized lines lineStartOffsets v1 (length lines) else v1)
      in segments v2)"

section \<open>The comment lexer\<close>

datatype CommentMode = CLike | Python | NoComments

definition C_LIKE_EXTS :: "jsstring list" where
  "C_LIKE_EXTS = map js
     [''c'', ''h'', ''cpp'', ''cc'', ''hpp'', ''java'', ''js'', ''ts'', ''tsx'', ''go'', ''rs'',
      ''cs'', ''kt'', ''swift'', ''php'', ''rb'', ''scala'', ''m'', ''mm'']"

text \<open>
  \<open>String.prototype.toLowerCase\<close> belongs to the JavaScript runtime and follows the Unicode
  case mappings (U+212A KELVIN SIGN becomes \<open>k\<close>, for one). The model takes it as the
  parameter \<open>toLowerCase\<close> of the functions that call it. \<open>asciiLowerCase\<close> is what it does to
  a string of ASCII code units.
\<close>

definition asciiLowerCase :: "jsstring \<Rightarrow> jsstring" where
  "asciiLowerCase cs = map (\<lambda>c. if 0x41 \<le> c \<and> c \<le> 0x5A then c + 0x20 else c) cs"

fun lastIndexOf_from :: "jsstring \<Rightarrow> codeunit \<Rightarrow> nat \<Rightarrow> int" where
  \<comment> \<open>The search of \<open>s.lastIndexOf(ch)\<close> downwards from the index before \<open>n\<close>; \<open>-1\<close> if absent.\<close>
  "lastIndexOf_from s ch 0 = -1"
| "lastIndexOf_from s ch (Suc n) = (if s ! n = ch then int n else lastIndexOf_from s ch n)"

definition getFileExtensionLower :: "(jsstring \<Rightarrow> jsstring) \<Rightarrow> jsstring \<Rightarrow> jsstring" where
  "getFileExtensionLower toLowerCase fileName =
     (let lower = toLowerCase fileName;
          dot = lastIndexOf_from lower 0x2E (length lower)
      in if dot \<ge> 0 then drop (nat (dot + 1)) lower else [])"

definition detectCommentMode :: "(jsstring \<Rightarrow> jsstring) \<Rightarrow> jsstring \<Rightarrow> CommentMode" where
  "detectCommentMode toLowerCase fileName =
     (let ext = getFileExtensionLower toLowerCase fileName
      in if ext = js ''py'' then Python
         else if ext \<in> set C_LIKE_EXTS then CLike else NoComments)"

datatype LexState =
  code | lineComment | blockComment | singleQuote | doubleQuote | template
  | tripleSingle | tripleDouble

text \<open>The mutable variables of both lexers; \<open>lexState\<close>, \<open>commentStart\<close> and \<open>outRanges\<close> are the source's \<open>state\<close>, \<open>start\<close> and \<open>ranges\<close>.\<close>

record LexerVars =
  lexState :: LexState
  escaped :: bool
  commentStart :: int
  outRanges :: "int TextRange list"

abbreviation QUOTE :: codeunit where "QUOTE \<equiv> 0x27"
abbreviation DQUOTE :: codeunit where "DQUOTE \<equiv> 0x22"
abbreviation BACKTICK :: codeunit where "BACKTICK \<equiv> 0x60"
abbreviation BACKSLASH :: codeunit where "BACKSLASH \<equiv> 0x5C"
abbreviation SLASH :: codeunit where "SLASH \<equiv> 0x2F"
abbreviation STAR :: codeunit where "STAR \<equiv> 0x2A"
abbreviation HASH :: codeunit where "HASH \<equiv> 0x23"

definition startsWithAt :: "jsstring \<Rightarrow> jsstring \<Rightarrow> nat \<Rightarrow> bool" where
  \<comment> \<open>\<open>text.slice(at, at + needle.length) === needle\<close>\<close>
  "startsWithAt txt needle pos \<longleftrightarrow> slice txt pos (pos + length needle) = needle"

definition cLikeStep :: "jsstring \<Rightarrow> nat \<Rightarrow> LexerVars \<Rightarrow> LexerVars \<times> nat" where
  \<comment> \<open>The body of the \<open>for\<close> of \<open>parseCLikeCommentRanges\<close> at index \<open>i\<close>: the new variables
      and by how much the body itself moved \<open>i\<close> (the loop header adds one more).\<close>
  "cLikeStep txt i v =
     (let ch = txt ! i;
          nxt = (if i + 1 < length txt then Some (txt ! (i + 1)) else None)
      in
      if lexState v = lineComment then
        (if ch = NL
         then (v\<lparr>outRanges := outRanges v @ [\<lparr>start = commentStart v, end' = int i\<rparr>],
                 commentStart := -1, lexState := code\<rparr>, 0)
         else (v, 0))
      else if lexState v = blockComment then
        (if ch = STAR \<and> nxt = Some SLASH
         then (v\<lparr>outRanges := outRanges v @ [\<lparr>start = commentStart v, end' = int (i + 1) + 1\<rparr>],
                 commentStart := -1, lexState := code\<rparr>, 1)
         else (v, 0))
      else if lexState v = singleQuote \<or> lexState v = doubleQuote \<or> lexState v = template then
        (if escaped v then (v\<lparr>escaped := False\<rparr>, 0)
         else if ch = BACKSLASH then (v\<lparr>escaped := True\<rparr>, 0)
         else if (lexState v = singleQuote \<and> ch = QUOTE) \<or> (lexState v = doubleQuote \<and> ch = DQUOTE)
                 \<or> (lexState v = template \<and> ch = BACKTICK)
         then (v\<lparr>lexState := code\<rparr>, 0)
         else (v, 0))
      else if ch = SLASH \<and> nxt = Some SLASH then
        (v\<lparr>commentStart := int i, lexState := lineComment\<rparr>, 1)
      else if ch = SLASH \<and> nxt = Some STAR then
        (v\<lparr>commentStart := int i, lexState := blockComment\<rparr>, 1)
      else if ch = QUOTE then (v\<lparr>lexState := singleQuote, escaped := False\<rparr>, 0)
      else if ch = DQUOTE then (v\<lparr>lexState := doubleQuote, escaped := False\<rparr>, 0)
      else if ch = BACKTICK then (v\<lparr>lexState := template, escaped := False\<rparr>, 0)
      else (v, 0))"

function cLikeLoop :: "jsstring \<Rightarrow> nat \<Rightarrow> LexerVars \<Rightarrow> LexerVars" where
  "cLikeLoop txt i v =
     (if i < length txt
      then (case cLikeStep txt i v of (v', moved) \<Rightarrow> cLikeLoop txt (i + moved + 1) v')
      else v)"
  by pat_completeness auto
termination
  by (relation "measure (\<lambda>(txt, i, v). length txt - i)") auto

declare cLikeLoop.simps [simp del]

definition parseCLikeCommentRanges :: "jsstring \<Rightarrow> int TextRange list" where
  "parseCLikeCommentRanges txt =
     (let v = cLikeLoop txt 0 \<lparr>lexState = code, escaped = False, commentStart = -1, outRanges = []\<rparr>;
          v1 = (if lexState v = lineComment \<and> commentStart v \<ge> 0
                then v\<lparr>outRanges := outRanges v @ [\<lparr>start = commentStart v, end' = int (length txt)\<rparr>]\<rparr>
                else v);
          v2 = (if lexState v1 = blockComment \<and> commentStart v1 \<ge> 0
                then v1\<lparr>outRanges := outRanges v1 @ [\<lparr>start = commentStart v1, end' = int (length txt)\<rparr>]\<rparr>
                else v1)
      in outRanges v2)"

definition pythonStep :: "jsstring \<Rightarrow> nat \<Rightarrow> LexerVars \<Rightarrow> LexerVars \<times> nat" where
  \<comment> \<open>The body of the \<open>for\<close> of \<open>parsePythonCommentRanges\<close> at index \<open>i\<close>, as \<open>cLikeStep\<close>.\<close>
  "pythonStep txt i v =
     (let ch = txt ! i
      in
      if lexState v = lineComment then
        (if ch = NL
         then (v\<lparr>outRanges := outRanges v @ [\<lparr>start = commentStart v, end' = int i\<rparr>],
                 commentStart := -1, lexState := code\<rparr>, 0)
         else (v, 0))
      else if lexState v = tripleSingle then
        (if startsWithAt txt [QUOTE, QUOTE, QUOTE] i
         then (v\<lparr>outRanges := outRanges v @ [\<lparr>start = commentStart v, end' = int (i + 2) + 1\<rparr>],
                 commentStart := -1, lexState := code\<rparr>, 2)
         else (v, 0))
      else if lexState v = tripleDouble then
        (if startsWithAt txt [DQUOTE, DQUOTE, DQUOTE] i
         then (v\<lparr>outRanges := outRanges v @ [\<lparr>start = commentStart v, end' = int (i + 2) + 1\<rparr>],
                 commentStart := -1, lexState := code\<rparr>, 2)
         else (v, 0))
      else if lexState v = singleQuote \<or> lexState v = doubleQuote then
        (if escaped v then (v\<lparr>escaped := False\<rparr>, 0)
         else if ch = BACKSLASH then (v\<lparr>escaped := True\<rparr>, 0)
         else if (lexState v = singleQuote \<and> ch = QUOTE) \<or> (lexState v = doubleQuote \<and> ch = DQUOTE)
         then (v\<lparr>lexState := code\<rparr>, 0)
         else (v, 0))
      else if startsWithAt txt [QUOTE, QUOTE, QUOTE] i then
        (v\<lparr>commentStart := int i, lexState := tripleSingle\<rparr>, 2)
      else if startsWithAt txt [DQUOTE, DQUOTE, DQUOTE] i then
        (v\<lparr>commentStart := int i, lexState := tripleDouble\<rparr>, 2)
      else if ch = HASH then (v\<lparr>commentStart := int i, lexState := lineComment\<rparr>, 0)
      else if ch = QUOTE then (v\<lparr>lexState := singleQuote, escaped := False\<rparr>, 0)
      else if ch = DQUOTE then (v\<lparr>lexState := doubleQuote, escaped := False\<rparr>, 0)
      else (v, 0))"

function pythonLoop :: "jsstring \<Rightarrow> nat \<Rightarrow> LexerVars \<Rightarrow> LexerVars" where
  "pythonLoop txt i v =
     (if i < length txt
      then (case pythonStep txt i v of (v', moved) \<Rightarrow> pythonLoop txt (i + moved + 1) v')
      else v)"
  by pat_completeness auto
termination
  by (relation "measure (\<lambda>(txt, i, v). length txt - i)") auto

declare pythonLoop.simps [simp del]

definition parsePythonCommentRanges :: "jsstring \<Rightarrow> int TextRange list" where
  "parsePythonCommentRanges txt =
     (let v = pythonLoop txt 0 \<lparr>lexState = code, escaped = False, commentStart = -1, outRanges = []\<rparr>;
          v1 = (if lexState v = lineComment \<and> commentStart v \<ge> 0
                then v\<lparr>outRanges := outRanges v @ [\<lparr>start = commentStart v, end' = int (length txt)\<rparr>]\<rparr>
                else v);
          v2 = (if (lexState v1 = tripleSingle \<or> lexState v1 = tripleDouble) \<and> commentStart v1 \<ge> 0
                then v1\<lparr>outRanges := outRanges v1 @ [\<lparr>start = commentStart v1, end' = int (length txt)\<rparr>]\<rparr>
                else v1)
      in outRanges v2)"

definition parseCommentRangesForFile ::
  "(jsstring \<Rightarrow> jsstring) \<Rightarrow> jsstring \<Rightarrow> jsstring \<Rightarrow> int TextRange list" where
  "parseCommentRangesForFile toLowerCase txt fileName =
     (let mode = detectCommentMode toLowerCase fileName
      in if mode = NoComments then []
         else if mode = Python then parsePythonCommentRanges txt
         else parseCLikeCommentRanges txt)"

section \<open>Merging ranges\<close>

text \<open>
  \<open>mergeRanges\<close> of the skip-range planner and \<open>normalizeRanges\<close> of the engine are the same
  code, written twice in the source: clamp and floor each bound, drop the empty ranges,
  sort, and fold the ranges that touch or overlap.
\<close>

definition clampIndex :: "int \<Rightarrow> jsnum \<Rightarrow> int option" where
  \<comment> \<open>\<open>Math.max(0, Math.min(max, Math.floor(x)))\<close>; \<open>None\<close> is NaN, which every step passes on.\<close>
  "clampIndex mx x =
     (case x of
        Fin r \<Rightarrow> Some (max 0 (min mx \<lfloor>r\<rfloor>))
      | PosInf \<Rightarrow> Some (max 0 mx)
      | NegInf \<Rightarrow> Some 0
      | NaN \<Rightarrow> None)"

definition trimRange :: "int \<Rightarrow> jsnum TextRange \<Rightarrow> int TextRange option" where
  \<comment> \<open>The \<open>.map\<close> and \<open>.filter\<close> steps on one range: \<open>r.end > r.start\<close> is false when
      either bound is NaN, so such a range is dropped with the empty ones.\<close>
  "trimRange mx r =
     (case (clampIndex mx (start r), clampIndex mx (end' r)) of
        (Some s, Some e) \<Rightarrow> if e > s then Some \<lparr>start = s, end' = e\<rparr> else None
      | _ \<Rightarrow> None)"

definition trimmedRanges :: "jsnum TextRange list \<Rightarrow> int \<Rightarrow> int TextRange list" where
  \<comment> \<open>\<open>.sort((a, b) => (a.start - b.start) || (a.end - b.end))\<close>: ascending by start, then end.\<close>
  "trimmedRanges ranges mx = sort_key (\<lambda>r. (start r, end' r)) (List.map_filter (trimRange mx) ranges)"

fun mergeLoop :: "int TextRange list \<Rightarrow> int TextRange \<Rightarrow> int TextRange list \<Rightarrow> int TextRange list" where
  "mergeLoop merged current [] = merged @ [current]"
| "mergeLoop merged current (next # rest) =
     (if start next \<le> end' current
      then mergeLoop merged \<lparr>start = start current, end' = max (end' current) (end' next)\<rparr> rest
      else mergeLoop (merged @ [current]) next rest)"

section \<open>The skip-range planner\<close>

definition mergeRanges :: "jsnum TextRange list \<Rightarrow> int \<Rightarrow> int TextRange list" where
  "mergeRanges ranges maxLen =
     (if ranges = [] then []
      else let trimmed = trimmedRanges ranges maxLen
           in if length trimmed \<le> 1 then trimmed
              else mergeLoop [] (hd trimmed) (tl trimmed))"

definition fillSkipMask :: "bool list \<Rightarrow> int TextRange list \<Rightarrow> bool list" where
  \<comment> \<open>\<open>for (const r of ranges) for (let i = r.start; i < r.end; i += 1) skipMask[i] = true\<close>.
      The ranges come from \<open>mergeRanges\<close>, so every \<open>i\<close> is an index of the mask.\<close>
  "fillSkipMask skipMask ranges =
     foldl (\<lambda>m r. foldl (\<lambda>m' i. m'[nat i := True]) m [start r .. end' r - 1]) skipMask ranges"

function hasPrintableFrom :: "bool list \<Rightarrow> nat \<Rightarrow> nat \<Rightarrow> bool" where
  \<comment> \<open>\<open>for (let j = lineStart; j < i; j += 1) if (!skipMask[j]) { hasPrintable = true; break }\<close>\<close>
  "hasPrintableFrom skipMask j i =
     (if j < i then (if \<not> skipMask ! j then True else hasPrintableFrom skipMask (j + 1) i)
      else False)"
  by pat_completeness auto
termination
  by (relation "measure (\<lambda>(skipMask, j, i). i - j)") auto

declare hasPrintableFrom.simps [simp del]

definition lineBreakStep ::
  "jsstring \<Rightarrow> bool list \<Rightarrow> int TextRange list \<times> nat \<Rightarrow> nat \<Rightarrow> int TextRange list \<times> nat" where
  \<comment> \<open>One turn of the outer \<open>for\<close>, on the variables \<open>out\<close> and \<open>lineStart\<close>.\<close>
  "lineBreakStep txt skipMask acc i =
     (case acc of (out, lineStart) \<Rightarrow>
        if txt ! i \<noteq> NL then (out, lineStart)
        else
          let hasPrintable = hasPrintableFrom skipMask lineStart i;
              out' = (if \<not> hasPrintable then out @ [\<lparr>start = int i, end' = int i + 1\<rparr>] else out)
          in (out', i + 1))"

definition computeSkippableLineBreakRanges :: "jsstring \<Rightarrow> jsnum TextRange list \<Rightarrow> int TextRange list" where
  "computeSkippableLineBreakRanges txt skipRanges0 =
     (if length txt = 0 then []
      else
        let ranges = mergeRanges skipRanges0 (int (length txt));
            skipMask = fillSkipMask (replicate (length txt) False) ranges
        in fst (foldl (lineBreakStep txt skipMask) ([], 0) [0 ..< length txt]))"

section \<open>The typing engine\<close>

record TypingEngineState =
  text' :: jsstring
  slackN :: int
  autoSkipBlankLines :: bool
  allowWhitespaceAdvanceToNewline :: bool
  skipRanges :: "int TextRange list"
  cursor :: int
  typedEnd :: int
  errorActive :: bool
  firstErrorIndex :: int
  firstErrorTypedProgress :: int
  locked :: bool
  marks :: "Mark list"
  countedCorrect :: "bool list"
  typedPositions :: "int list"
  typeableChars :: int
  typedKeystrokes :: int
  incorrect :: int
  collateral :: int
  backspaces :: int
  correctChars :: int

subsection \<open>normalizeRanges\<close>

definition normalizeRanges :: "jsnum TextRange list \<Rightarrow> int \<Rightarrow> int TextRange list" where
  \<comment> \<open>An \<open>undefined\<close> argument is returned for like the empty list; the list stands for both.\<close>
  "normalizeRanges ranges mx =
     (if ranges = [] then []
      else let trimmed = trimmedRanges ranges mx
           in if length trimmed \<le> 1 then trimmed
              else mergeLoop [] (hd trimmed) (tl trimmed))"

definition sumRangeLengths :: "int TextRange list \<Rightarrow> int" where
  "sumRangeLengths ranges = foldl (\<lambda>total r. total + max 0 (end' r - start r)) 0 ranges"

subsection \<open>Skipping forward\<close>

function findContainingRange_loop ::
  "int TextRange list \<Rightarrow> int \<Rightarrow> int \<Rightarrow> int \<Rightarrow> int TextRange option" where
  \<comment> \<open>The \<open>while (lo <= hi)\<close> of the binary search. \<open>(lo + hi) >> 1\<close> halves the sum, which is
      not negative in the loop; \<open>mid\<close> is an index of \<open>ranges\<close> as \<open>0 \<le> lo\<close> and
      \<open>hi < ranges.length\<close> throughout.\<close>
  "findContainingRange_loop ranges pos lo hi =
     (if lo \<le> hi then
        (let mid = (lo + hi) div 2; r = ranges ! nat mid
         in if pos < start r then findContainingRange_loop ranges pos lo (mid - 1)
            else if pos \<ge> end' r then findContainingRange_loop ranges pos (mid + 1) hi
            else Some r)
      else None)"
  by pat_completeness auto
termination
  by (relation "measure (\<lambda>(ranges, pos, lo, hi). nat (hi - lo + 1))") auto

declare findContainingRange_loop.simps [simp del]

definition findContainingRange :: "int TextRange list \<Rightarrow> int \<Rightarrow> int TextRange option" where
  "findContainingRange ranges pos = findContainingRange_loop ranges pos 0 (int (length ranges) - 1)"

lemma findContainingRange_loop_bounds:
  "findContainingRange_loop ranges pos lo hi = Some r \<Longrightarrow> start r \<le> pos \<and> pos < end' r"
proof (induction ranges pos lo hi rule: findContainingRange_loop.induct)
  case (1 ranges pos lo hi)
  then show ?case
    by (subst (asm) (3) findContainingRange_loop.simps) (auto simp: Let_def split: if_splits)
qed

function skipForward_loop :: "int TextRange list \<Rightarrow> int \<Rightarrow> int \<Rightarrow> int" where
  \<comment> \<open>The \<open>while\<close> of \<open>skipForwardIfNeeded\<close>, on the cursor; the second argument is \<open>text.length\<close>.\<close>
  "skipForward_loop ranges len c =
     (if c < len then
        (case findContainingRange ranges c of
           None \<Rightarrow> c
         | Some r \<Rightarrow> skipForward_loop ranges len (end' r))
      else c)"
  by pat_completeness auto
termination skipForward_loop
  by (relation "measure (\<lambda>(ranges, len, c). nat (len - c))")
     (auto simp: findContainingRange_def dest: findContainingRange_loop_bounds)

declare skipForward_loop.simps [simp del]

definition skipForwardIfNeeded :: "TypingEngineState \<Rightarrow> TypingEngineState" where
  "skipForwardIfNeeded s =
     (if skipRanges s = [] then s
      else s\<lparr>cursor := skipForward_loop (skipRanges s) (int (length (text' s))) (cursor s)\<rparr>)"

subsection \<open>Creating an engine\<close>

definition coerceSlack :: "jsnum \<Rightarrow> int" where
  \<comment> \<open>\<open>Number.isFinite(slackN) ? Math.max(0, Math.floor(slackN)) : 3\<close>\<close>
  "coerceSlack n = (case n of Fin r \<Rightarrow> max 0 \<lfloor>r\<rfloor> | _ \<Rightarrow> 3)"

definition createTypingEngine ::
  "jsstring \<Rightarrow> jsnum \<Rightarrow> bool \<Rightarrow> jsnum TextRange list \<Rightarrow> bool \<Rightarrow> TypingEngineState" where
  "createTypingEngine txt slack autoSkip ranges0 allowWhitespaceAdvance =
     (let ranges = normalizeRanges ranges0 (int (length txt));
          skippedChars = sumRangeLengths ranges
      in skipForwardIfNeeded
           \<lparr>text' = txt,
            slackN = coerceSlack slack,
            autoSkipBlankLines = autoSkip,
            allowWhitespaceAdvanceToNewline = allowWhitespaceAdvance,
            skipRanges = ranges,
            cursor = 0,
            typedEnd = 0,
            errorActive = False,
            firstErrorIndex = -1,
            firstErrorTypedProgress = -1,
            locked = False,
            marks = replicate (length txt) UNTOUCHED,
            countedCorrect = replicate (length txt) False,
            typedPositions = [],
            typeableChars = max 0 (int (length txt) - skippedChars),
            typedKeystrokes = 0,
            incorrect = 0,
            collateral = 0,
            backspaces = 0,
            correctChars = 0\<rparr>)"

definition isComplete :: "TypingEngineState \<Rightarrow> bool" where
  "isComplete s \<longleftrightarrow> cursor s \<ge> int (length (text' s)) \<and> \<not> errorActive s \<and> \<not> locked s"

subsection \<open>setMark\<close>

definition storeFlag :: "bool list \<Rightarrow> nat \<Rightarrow> bool \<Rightarrow> bool list" where
  \<comment> \<open>\<open>arr[i] = v\<close> on a boolean array: a write past the end extends the array; the holes
      read as \<open>undefined\<close>, which the only read, \<open>arr[i] === true\<close>, takes as false.\<close>
  "storeFlag arr i v =
     (if i < length arr then arr[i := v] else arr @ replicate (i - length arr) False @ [v])"

definition setMark :: "TypingEngineState \<Rightarrow> int \<Rightarrow> Mark \<Rightarrow> bool \<Rightarrow> TypingEngineState" where
  "setMark s idx nxt countCorrect =
     (if idx < 0 \<or> idx \<ge> int (length (marks s)) then s
      else
        let i = nat idx;
            prev = marks s ! i;
            prevCounted = (i < length (countedCorrect s) \<and> countedCorrect s ! i);
            prevWasCountedCorrect = (prev = CORRECT \<and> prevCounted);
            nextWillCountCorrect = (nxt = CORRECT \<and> countCorrect);
            s1 = (if prevWasCountedCorrect \<and> \<not> nextWillCountCorrect
                  then s\<lparr>correctChars := correctChars s - 1\<rparr> else s);
            s2 = (if \<not> prevWasCountedCorrect \<and> nextWillCountCorrect
                  then s1\<lparr>correctChars := correctChars s1 + 1\<rparr> else s1)
        in s2\<lparr>marks := (marks s2)[i := nxt],
               countedCorrect := storeFlag (countedCorrect s2) i nextWillCountCorrect\<rparr>)"

lemma setMark_text [simp]: "text' (setMark s idx nxt cc) = text' s"
  and setMark_cursor [simp]: "cursor (setMark s idx nxt cc) = cursor s"
  by (simp_all add: setMark_def Let_def)

subsection \<open>handleKey\<close>

function autoSkipNewlines :: "TypingEngineState \<Rightarrow> TypingEngineState" where
  \<comment> \<open>The \<open>while\<close> of the blank-line branch: marks each following newline CORRECT, uncounted.\<close>
  "autoSkipNewlines s =
     (if cursor s < int (length (text' s)) \<and> charAt (text' s) (cursor s) = Some NL
      then autoSkipNewlines ((setMark s (cursor s) CORRECT False)\<lparr>cursor := cursor s + 1\<rparr>)
      else s)"
  by pat_completeness auto
termination
  by (relation "measure (\<lambda>s. nat (int (length (text' s)) - cursor s))") auto

declare autoSkipNewlines.simps [simp del]

definition handleKey :: "TypingEngineState \<Rightarrow> jsstring \<Rightarrow> TypingEngineState" where
  \<comment> \<open>The state is mutated in place and returned: \<open>s1\<close>, \<open>s2\<close>, \<dots> are the state after each
      statement. \<open>!ch\<close> holds for the empty string only; \<open>ch[0]\<close> is its first code unit.\<close>
  "handleKey s0 ch =
     (if ch = [] then s0
      else
        let s1 = s0\<lparr>typedKeystrokes := typedKeystrokes s0 + 1\<rparr> in
        if locked s1 then s1
        else
          let s2 = skipForwardIfNeeded s1 in
          if cursor s2 \<ge> int (length (text' s2)) then s2
          else
            let input0 = hd ch;
                expected = charAt (text' s2) (cursor s2)
            in
            if \<not> errorActive s2 then
              (let input = (if allowWhitespaceAdvanceToNewline s2 \<and> input0 = SPACE \<and> expected = Some NL
                            then NL else input0)
               in
               if Some input = expected then
                 (let isEnter = (input = NL \<and> expected = Some NL) in
                  if isEnter \<and> autoSkipBlankLines s2 then
                    (let s3 = setMark s2 (cursor s2) CORRECT True;
                         s4 = s3\<lparr>typedPositions := typedPositions s3 @ [cursor s3]\<rparr>;
                         s5 = s4\<lparr>cursor := cursor s4 + 1\<rparr>;
                         s6 = s5\<lparr>typedEnd := cursor s5\<rparr>;
                         s7 = autoSkipNewlines s6;
                         s8 = s7\<lparr>typedEnd := cursor s7\<rparr>
                     in skipForwardIfNeeded s8)
                  else
                    (let s3 = setMark s2 (cursor s2) CORRECT True;
                         s4 = s3\<lparr>typedPositions := typedPositions s3 @ [cursor s3]\<rparr>;
                         s5 = s4\<lparr>cursor := cursor s4 + 1\<rparr>;
                         s6 = s5\<lparr>typedEnd := cursor s5\<rparr>
                     in skipForwardIfNeeded s6))
               else
                 (let typedProgressBefore = int (length (typedPositions s2));
                      s3 = setMark s2 (cursor s2) INCORRECT False;
                      s4 = s3\<lparr>typedPositions := typedPositions s3 @ [cursor s3]\<rparr>;
                      s5 = s4\<lparr>incorrect := incorrect s4 + 1,
                               errorActive := True,
                               firstErrorIndex := cursor s4,
                               firstErrorTypedProgress := typedProgressBefore\<rparr>;
                      s6 = s5\<lparr>cursor := cursor s5 + 1\<rparr>;
                      s7 = s6\<lparr>typedEnd := cursor s6\<rparr>
                  in skipForwardIfNeeded s7))
            else
              (let typedDistance =
                     (if firstErrorTypedProgress s2 \<ge> 0
                      then int (length (typedPositions s2)) - firstErrorTypedProgress s2
                      else cursor s2 - firstErrorIndex s2)
               in
               if typedDistance \<le> slackN s2 then
                 (let s3 = setMark s2 (cursor s2) COLLATERAL False;
                      s4 = s3\<lparr>typedPositions := typedPositions s3 @ [cursor s3]\<rparr>;
                      s5 = s4\<lparr>collateral := collateral s4 + 1\<rparr>;
                      s6 = s5\<lparr>cursor := cursor s5 + 1\<rparr>;
                      s7 = s6\<lparr>typedEnd := cursor s6\<rparr>
                  in skipForwardIfNeeded s7)
               else s2\<lparr>locked := True\<rparr>))"

subsection \<open>handleBackspace\<close>

definition handleBackspace :: "TypingEngineState \<Rightarrow> TypingEngineState" where
  \<comment> \<open>\<open>typedPositions.pop()\<close> gives a number unless the array is empty.\<close>
  "handleBackspace s0 =
     (let s1 = s0\<lparr>typedKeystrokes := typedKeystrokes s0 + 1,
                  backspaces := backspaces s0 + 1,
                  locked := False\<rparr>;
          s2 = (if typedPositions s1 = [] then s1
                else
                  let lst = last (typedPositions s1);
                      s = s1\<lparr>typedPositions := butlast (typedPositions s1)\<rparr>;
                      s = s\<lparr>cursor := lst\<rparr>;
                      s = s\<lparr>typedEnd := cursor s\<rparr>
                  in setMark s (cursor s) UNTOUCHED False)
      in if errorActive s2 \<and> cursor s2 \<le> firstErrorIndex s2
         then s2\<lparr>errorActive := False, firstErrorIndex := -1, firstErrorTypedProgress := -1\<rparr>
         else s2)"

section \<open>Notions of the specification\<close>

text \<open>
  A range is half-open: the offsets inside \<open>{start, end}\<close> are \<open>start \<le> x < end\<close>. A list of
  ranges is separated when each range ends before the next one starts, so that they are
  sorted, pairwise disjoint and do not even touch.
\<close>

definition inRange :: "int TextRange \<Rightarrow> int \<Rightarrow> bool" where
  "inRange r x \<longleftrightarrow> start r \<le> x \<and> x < end' r"

definition validRange :: "int \<Rightarrow> int TextRange \<Rightarrow> bool" where
  "validRange mx r \<longleftrightarrow> 0 \<le> start r \<and> start r < end' r \<and> end' r \<le> mx"

fun separated :: "int TextRange list \<Rightarrow> bool" where
  "separated (r # r' # rs) = (end' r < start r' \<and> separated (r' # rs))"
| "separated rs = True"

definition covered :: "int TextRange list \<Rightarrow> int \<Rightarrow> bool" where
  "covered rs x \<longleftrightarrow> (\<exists>r\<in>set rs. inRange r x)"

text \<open>
  The ranges an engine keeps are \<open>goodRanges\<close>: separated, non-empty and within the text.
  \<open>insideInput r x\<close> says that the offset \<open>x\<close> lies in a range as the caller gave it, its
  bounds floored (a NaN bound makes the range empty, an infinite one leaves that side open).
\<close>

definition goodRanges :: "int \<Rightarrow> int TextRange list \<Rightarrow> bool" where
  "goodRanges mx rs \<longleftrightarrow> separated rs \<and> (\<forall>r\<in>set rs. validRange mx r)"

definition insideInput :: "jsnum TextRange \<Rightarrow> int \<Rightarrow> bool" where
  "insideInput r x \<longleftrightarrow>
     (case start r of Fin a \<Rightarrow> \<lfloor>a\<rfloor> \<le> x | NegInf \<Rightarrow> True | _ \<Rightarrow> False)
     \<and> (case end' r of Fin b \<Rightarrow> x < \<lfloor>b\<rfloor> | PosInf \<Rightarrow> True | _ \<Rightarrow> False)"

text \<open>
  The states of an engine are those reachable from \<open>createTypingEngine\<close> by \<open>handleKey\<close> and
  \<open>handleBackspace\<close>. A position is user-typed in a state when it carries a mark that only
  a key the user typed leaves: INCORRECT, COLLATERAL, or a CORRECT that was counted. The
  newlines that the blank-line walk consumes are CORRECT and not counted, so they are not
  user-typed. The invariant of the engine is stated in four parts.
\<close>

definition userTyped :: "TypingEngineState \<Rightarrow> int \<Rightarrow> bool" where
  "userTyped s i \<longleftrightarrow>
     0 \<le> i \<and> nat i < length (marks s)
     \<and> (marks s ! nat i = INCORRECT \<or> marks s ! nat i = COLLATERAL
        \<or> (nat i < length (countedCorrect s) \<and> countedCorrect s ! nat i))"

definition posInv :: "TypingEngineState \<Rightarrow> bool" where
  "posInv s \<longleftrightarrow>
     0 \<le> typedEnd s \<and> typedEnd s \<le> cursor s \<and> cursor s \<le> int (length (text' s))
     \<and> goodRanges (int (length (text' s))) (skipRanges s)
     \<and> sorted_wrt (<) (typedPositions s)
     \<and> (\<forall>p\<in>set (typedPositions s). 0 \<le> p \<and> p < typedEnd s \<and> \<not> covered (skipRanges s) p)"

definition markInv :: "TypingEngineState \<Rightarrow> bool" where
  "markInv s \<longleftrightarrow>
     length (marks s) = length (text' s) \<and> length (countedCorrect s) = length (text' s)
     \<and> correctChars s = int (length (filter (\<lambda>b. b) (countedCorrect s)))
     \<and> (\<forall>i < length (text' s). countedCorrect s ! i \<longrightarrow> marks s ! i = CORRECT)"

definition typedInv :: "TypingEngineState \<Rightarrow> bool" where
  "typedInv s \<longleftrightarrow> set (typedPositions s) = {i. userTyped s i}"

definition counterInv :: "TypingEngineState \<Rightarrow> bool" where
  "counterInv s \<longleftrightarrow>
     0 \<le> typeableChars s \<and> 0 \<le> typedKeystrokes s \<and> 0 \<le> incorrect s
     \<and> 0 \<le> collateral s \<and> 0 \<le> backspaces s"

definition coreInv :: "TypingEngineState \<Rightarrow> bool" where
  "coreInv s \<longleftrightarrow> posInv s \<and> markInv s \<and> typedInv s \<and> counterInv s"

definition engineInv :: "TypingEngineState \<Rightarrow> bool" where
  "engineInv s \<longleftrightarrow> coreInv s \<and> \<not> covered (skipRanges s) (cursor s)"

inductive reachable :: "TypingEngineState \<Rightarrow> bool" where
  created: "reachable (createTypingEngine txt slack autoSkip ranges0 allow)"
| key: "reachable s \<Longrightarrow> reachable (handleKey s ch)"
| backspace: "reachable s \<Longrightarrow> reachable (handleBackspace s)"

text \<open>\<open>newlineRunEnd txt c\<close> is the offset just past the run of newlines that starts at \<open>c\<close>.\<close>

definition newlineRunEnd :: "jsstring \<Rightarrow> int \<Rightarrow> int" where
  "newlineRunEnd txt c = c + int (length (takeWhile (\<lambda>u. u = NL) (drop (nat c) txt)))"

text \<open>One key-and-backspace pair: the key expected at the cursor, then a backspace.\<close>

definition typeExpectedThenBackspace :: "TypingEngineState \<Rightarrow> TypingEngineState" where
  "typeExpectedThenBackspace s = handleBackspace (handleKey s [text' s ! nat (cursor s)])"

text \<open>The segment that slicing an oversize line emits at an offset of the line.\<close>

definition sliceSegment :: "jsstring \<Rightarrow> nat \<Rightarrow> nat \<Rightarrow> nat \<Rightarrow> nat \<Rightarrow> nat \<Rightarrow> TextSegmentWithOffsets" where
  "sliceSegment line lineNumber lineStartOffset charLimit idx offset =
     \<lparr>index = idx, startLine = lineNumber, endLine = lineNumber,
      text' = slice line offset (offset + charLimit),
      startOffset = lineStartOffset + offset,
      endOffset = lineStartOffset + offset + length (slice line offset (offset + charLimit))\<rparr>"

text \<open>
  \<open>lineStartOf txt i\<close> is the offset at which the line that holds offset \<open>i\<close> starts: just
  after the last newline before \<open>i\<close>, or 0. The content of the line that a newline at \<open>i\<close>
  ends is skipped when each of its offsets, from the line start up to \<open>i\<close>, is inside one
  of the base ranges.
\<close>

definition lineStartOf :: "jsstring \<Rightarrow> nat \<Rightarrow> nat" where
  "lineStartOf txt i = i - length (takeWhile (\<lambda>c. c \<noteq> NL) (rev (take i txt)))"

definition lineContentSkipped :: "jsnum TextRange list \<Rightarrow> jsstring \<Rightarrow> nat \<Rightarrow> bool" where
  "lineContentSkipped base txt i \<longleftrightarrow>
     (\<forall>j\<in>set [lineStartOf txt i ..< i]. \<exists>r\<in>set base. insideInput r (int j))"

text \<open>
  After a mismatch the engine allows \<open>slackN\<close> further keys before it locks. The keys that
  count are those the user typed from the first error on and has not taken back:
  \<open>keysSinceError\<close> counts the typed positions at or after \<open>firstErrorIndex\<close>, the erroneous
  key included. \<open>errInv\<close> relates the snapshot \<open>firstErrorTypedProgress\<close> that the code keeps to
  them: while an error is active it is the index, in \<open>typedPositions\<close>, of the erroneous key.
\<close>

definition keysSinceError :: "TypingEngineState \<Rightarrow> int" where
  "keysSinceError s = int (length (filter (\<lambda>p. firstErrorIndex s \<le> p) (typedPositions s)))"

definition errInv :: "TypingEngineState \<Rightarrow> bool" where
  "errInv s \<longleftrightarrow>
     (errorActive s \<longrightarrow>
        0 \<le> firstErrorTypedProgress s
        \<and> nat (firstErrorTypedProgress s) < length (typedPositions s)
        \<and> typedPositions s ! nat (firstErrorTypedProgress s) = firstErrorIndex s)"

text \<open>
  \<open>pythonAt t i v\<close>: the loop of \<open>parsePythonCommentRanges\<close> on the text \<open>t\<close> comes to the head
  of an iteration with index \<open>i\<close> and variables \<open>v\<close>.
\<close>

inductive pythonAt :: "jsstring \<Rightarrow> nat \<Rightarrow> LexerVars \<Rightarrow> bool" for t where
  start: "pythonAt t 0 \<lparr>lexState = code, escaped = False, commentStart = -1, outRanges = []\<rparr>"
| step: "pythonAt t i v \<Longrightarrow> i < length t \<Longrightarrow> pythonStep t i v = (v', moved)
         \<Longrightarrow> pythonAt t (i + moved + 1) v'"

text \<open>
  The body of a single-quoted string literal, between its quotes: a backslash takes the
  code unit after it along, whatever that is; no other code unit is a quote; the body does
  not end in a backslash that has nothing to take. Plain code holds no quote of either kind
  and no \<open>#\<close>.
\<close>

fun quotedBody :: "jsstring \<Rightarrow> bool" where
  "quotedBody [] = True"
| "quotedBody [c] = (c \<noteq> BACKSLASH \<and> c \<noteq> QUOTE)"
| "quotedBody (c # d # cs) = (if c = BACKSLASH then quotedBody cs else c \<noteq> QUOTE \<and> quotedBody (d # cs))"

definition plainCode :: "jsstring \<Rightarrow> bool" where
  "plainCode cs \<longleftrightarrow> (\<forall>c \<in> set cs. c \<noteq> QUOTE \<and> c \<noteq> DQUOTE \<and> c \<noteq> HASH)"

section \<open>Properties of merged ranges\<close>

lemma clampIndex_bounds: "0 \<le> mx \<Longrightarrow> clampIndex mx x = Some v \<Longrightarrow> 0 \<le> v \<and> v \<le> mx"
  by (auto simp: clampIndex_def split: jsnum.splits)

lemma trimRange_valid: "0 \<le> mx \<Longrightarrow> trimRange mx r = Some r' \<Longrightarrow> validRange mx r'"
  by (auto simp: trimRange_def validRange_def split: option.splits if_splits dest: clampIndex_bounds)

lemma set_map_filter_eq: "set (List.map_filter f xs) = {y. \<exists>x\<in>set xs. f x = Some y}"
  by (induction xs) (auto split: option.splits)

lemma set_trimmedRanges:
  "set (trimmedRanges ranges mx) = {r'. \<exists>r\<in>set ranges. trimRange mx r = Some r'}"
  by (simp add: trimmedRanges_def set_map_filter_eq)

lemma trimmedRanges_valid:
  "0 \<le> mx \<Longrightarrow> r' \<in> set (trimmedRanges ranges mx) \<Longrightarrow> validRange mx r'"
  by (auto simp: set_trimmedRanges dest: trimRange_valid)

lemma trimmedRanges_sorted: "sorted (map start (trimmedRanges ranges mx))"
proof -
  have "sorted (map (\<lambda>r. (start r, end' r)) (trimmedRanges ranges mx))"
    by (simp add: trimmedRanges_def)
  then have "sorted_wrt (\<lambda>a b. (start a, end' a) \<le> (start b, end' b)) (trimmedRanges ranges mx)"
    by (simp add: sorted_map)
  then have "sorted_wrt (\<lambda>a b. start a \<le> start b) (trimmedRanges ranges mx)"
    by (rule sorted_wrt_mono_rel[rotated]) (auto simp: less_eq_prod_def)
  then show ?thesis by (simp add: sorted_map)
qed

lemma mergeLoop_append: "mergeLoop merged cur rest = merged @ mergeLoop [] cur rest"
proof (induction rest arbitrary: merged cur)
  case Nil
  show ?case by simp
next
  case (Cons nxt rest)
  show ?case
    using Cons.IH[of merged] Cons.IH[of "merged @ [cur]"] Cons.IH[of "[cur]"]
    by simp
qed

lemma mergeLoop_hd:
  "\<exists>r rs. mergeLoop [] cur rest = r # rs \<and> start r = start cur \<and> end' cur \<le> end' r"
proof (induction rest arbitrary: cur)
  case Nil
  show ?case by simp
next
  case (Cons nxt rest)
  show ?case
  proof (cases "start nxt \<le> end' cur")
    case True
    then show ?thesis
      using Cons.IH[of "\<lparr>start = start cur, end' = max (end' cur) (end' nxt)\<rparr>"] by auto
  next
    case False
    then show ?thesis
      using mergeLoop_append[of "[cur]" nxt rest] by simp
  qed
qed

lemma separated_Cons:
  "separated (r # rs) \<longleftrightarrow> (case rs of [] \<Rightarrow> True | r' # _ \<Rightarrow> end' r < start r' \<and> separated rs)"
  by (cases rs) auto

lemma mergeLoop_separated:
  "sorted (map start (cur # rest)) \<Longrightarrow> separated (mergeLoop [] cur rest)"
proof (induction rest arbitrary: cur)
  case Nil
  show ?case by simp
next
  case (Cons nxt rest)
  show ?case
  proof (cases "start nxt \<le> end' cur")
    case True
    have "sorted (map start (\<lparr>start = start cur, end' = max (end' cur) (end' nxt)\<rparr> # rest))"
      using Cons.prems by auto
    then show ?thesis using True Cons.IH by simp
  next
    case False
    obtain r rs where h: "mergeLoop [] nxt rest = r # rs" "start r = start nxt"
      using mergeLoop_hd[of nxt rest] by blast
    have "separated (mergeLoop [] nxt rest)" using Cons.prems Cons.IH by simp
    then show ?thesis
      using False h mergeLoop_append[of "[cur]" nxt rest] by simp
  qed
qed

lemma mergeLoop_valid:
  "validRange mx cur \<Longrightarrow> \<forall>r\<in>set rest. validRange mx r \<Longrightarrow>
   \<forall>r\<in>set (mergeLoop [] cur rest). validRange mx r"
proof (induction rest arbitrary: cur)
  case Nil
  then show ?case by simp
next
  case (Cons nxt rest)
  have rest: "\<forall>r\<in>set rest. validRange mx r" and nxt: "validRange mx nxt"
    using Cons.prems(2) by simp_all
  show ?case
  proof (cases "start nxt \<le> end' cur")
    case True
    let ?c = "\<lparr>start = start cur, end' = max (end' cur) (end' nxt)\<rparr>"
    have "validRange mx ?c"
      using Cons.prems(1) nxt by (auto simp: validRange_def)
    then have "\<forall>r\<in>set (mergeLoop [] ?c rest). validRange mx r"
      using rest by (rule Cons.IH)
    then show ?thesis using True by simp
  next
    case False
    have "\<forall>r\<in>set (mergeLoop [] nxt rest). validRange mx r"
      using nxt rest by (rule Cons.IH)
    moreover have "mergeLoop [] cur (nxt # rest) = cur # mergeLoop [] nxt rest"
      using False mergeLoop_append[of "[cur]" nxt rest] by simp
    ultimately show ?thesis using Cons.prems(1) by simp
  qed
qed

lemma mergeLoop_covered:
  "sorted (map start (cur # rest)) \<Longrightarrow> start cur \<le> end' cur \<Longrightarrow> \<forall>r\<in>set rest. start r \<le> end' r \<Longrightarrow>
   covered (mergeLoop [] cur rest) x \<longleftrightarrow> covered (cur # rest) x"
proof (induction rest arbitrary: cur)
  case Nil
  show ?case by simp
next
  case (Cons nxt rest)
  have rest: "\<forall>r\<in>set rest. start r \<le> end' r" and nxt: "start nxt \<le> end' nxt"
    using Cons.prems(3) by simp_all
  show ?case
  proof (cases "start nxt \<le> end' cur")
    case True
    let ?c = "\<lparr>start = start cur, end' = max (end' cur) (end' nxt)\<rparr>"
    have s: "sorted (map start (?c # rest))" "start ?c \<le> end' ?c"
      using Cons.prems by auto
    have "covered (?c # rest) x \<longleftrightarrow> covered (cur # nxt # rest) x"
      using True Cons.prems(1) by (auto simp: covered_def inRange_def)
    moreover have "covered (mergeLoop [] ?c rest) x \<longleftrightarrow> covered (?c # rest) x"
      using s rest by (rule Cons.IH)
    ultimately show ?thesis using True by simp
  next
    case False
    have s: "sorted (map start (nxt # rest))" using Cons.prems(1) by simp
    have "covered (mergeLoop [] nxt rest) x \<longleftrightarrow> covered (nxt # rest) x"
      using s nxt rest by (rule Cons.IH)
    moreover have "mergeLoop [] cur (nxt # rest) = cur # mergeLoop [] nxt rest"
      using False mergeLoop_append[of "[cur]" nxt rest] by simp
    ultimately show ?thesis by (simp add: covered_def)
  qed
qed


lemma normalizeRanges_eq: "normalizeRanges ranges mx = mergeRanges ranges mx"
  by (simp add: normalizeRanges_def mergeRanges_def)

lemma trimmedRanges_Nil [simp]: "trimmedRanges [] mx = []"
  by (simp add: trimmedRanges_def)

lemma mergeRanges_cases:
  "mergeRanges ranges mx =
     (case trimmedRanges ranges mx of [] \<Rightarrow> [] | cur # rest \<Rightarrow> mergeLoop [] cur rest)"
  by (cases "trimmedRanges ranges mx"; cases "tl (trimmedRanges ranges mx)")
     (auto simp: mergeRanges_def Let_def)

lemma mergeRanges_separated: "separated (mergeRanges ranges mx)"
  using trimmedRanges_sorted[of ranges mx]
  by (auto simp: mergeRanges_cases split: list.splits intro: mergeLoop_separated)

lemma mergeRanges_valid:
  assumes "0 \<le> mx" "r \<in> set (mergeRanges ranges mx)"
  shows "validRange mx r"
proof (cases "trimmedRanges ranges mx")
  case Nil
  then show ?thesis using assms by (simp add: mergeRanges_cases)
next
  case (Cons cur rest)
  have "validRange mx cur" "\<forall>r\<in>set rest. validRange mx r"
    using trimmedRanges_valid[OF assms(1), of _ ranges] Cons by auto
  then have "\<forall>r\<in>set (mergeLoop [] cur rest). validRange mx r"
    by (rule mergeLoop_valid)
  then show ?thesis using assms Cons by (simp add: mergeRanges_cases)
qed

lemma mergeRanges_covered:
  assumes "0 \<le> mx"
  shows "covered (mergeRanges ranges mx) x \<longleftrightarrow> covered (trimmedRanges ranges mx) x"
proof (cases "trimmedRanges ranges mx")
  case Nil
  then show ?thesis by (simp add: mergeRanges_cases)
next
  case (Cons cur rest)
  have v: "\<forall>r\<in>set (cur # rest). validRange mx r"
    using trimmedRanges_valid[OF assms, of _ ranges] Cons by auto
  have "covered (mergeLoop [] cur rest) x \<longleftrightarrow> covered (cur # rest) x"
  proof (rule mergeLoop_covered)
    show "sorted (map start (cur # rest))" using trimmedRanges_sorted[of ranges mx] Cons by simp
    show "start cur \<le> end' cur" using v by (simp add: validRange_def)
    show "\<forall>r\<in>set rest. start r \<le> end' r" using v by (auto simp: validRange_def intro: less_imp_le)
  qed
  then show ?thesis using Cons by (simp add: mergeRanges_cases)
qed

text \<open>In a separated list of non-empty ranges, every later range lies beyond an earlier one.\<close>

lemma separated_later:
  "separated (r # rs) \<Longrightarrow> \<forall>q\<in>set (r # rs). start q < end' q \<Longrightarrow> q \<in> set rs \<Longrightarrow> end' r < start q"
proof (induction rs arbitrary: r)
  case Nil
  then show ?case by simp
next
  case (Cons r' rs)
  show ?case
  proof (cases "q = r'")
    case True
    then show ?thesis using Cons.prems(1) by simp
  next
    case False
    then have "q \<in> set rs" using Cons.prems(3) by simp
    moreover have "separated (r' # rs)" using Cons.prems(1) by simp
    moreover have "\<forall>q\<in>set (r' # rs). start q < end' q" using Cons.prems(2) by simp
    ultimately have "end' r' < start q" by (rule Cons.IH[rotated 2])
    moreover have "end' r < start r'" using Cons.prems(1) by simp
    moreover have "start r' < end' r'" using Cons.prems(2) by simp
    ultimately show ?thesis by linarith
  qed
qed

lemma separated_tl: "separated (r # rs) \<Longrightarrow> separated rs"
  by (cases rs) auto

lemma separated_nth:
  "separated rs \<Longrightarrow> \<forall>q\<in>set rs. start q < end' q \<Longrightarrow> i < j \<Longrightarrow> j < length rs \<Longrightarrow>
   end' (rs ! i) < start (rs ! j)"
proof (induction rs arbitrary: i j)
  case Nil
  then show ?case by simp
next
  case (Cons r rs)
  show ?case
  proof (cases i)
    case 0
    then have "rs ! (j - 1) \<in> set rs" using Cons.prems(3,4) by (cases j) auto
    then have "end' r < start (rs ! (j - 1))"
      using separated_later[OF Cons.prems(1,2)] by blast
    then show ?thesis using 0 Cons.prems(3) by (cases j) auto
  next
    case (Suc i')
    obtain j' where j: "j = Suc j'" using Cons.prems(3) by (cases j) auto
    have "end' (rs ! i') < start (rs ! j')"
      using Cons.prems Suc j separated_tl[OF Cons.prems(1)] by (intro Cons.IH) auto
    then show ?thesis using Suc j by simp
  qed
qed

section \<open>Properties of skipping forward\<close>

lemma goodRanges_nth:
  "goodRanges mx rs \<Longrightarrow> i < j \<Longrightarrow> j < length rs \<Longrightarrow> end' (rs ! i) < start (rs ! j)"
  by (rule separated_nth) (auto simp: goodRanges_def validRange_def)

lemma goodRanges_nth_valid:
  "goodRanges mx rs \<Longrightarrow> i < length rs \<Longrightarrow> start (rs ! i) < end' (rs ! i)"
  by (auto simp: goodRanges_def validRange_def)

lemma mergeRanges_good: "0 \<le> mx \<Longrightarrow> goodRanges mx (mergeRanges ranges mx)"
  by (simp add: goodRanges_def mergeRanges_separated mergeRanges_valid)

lemma findContainingRange_loop_sound:
  "findContainingRange_loop rs pos lo hi = Some r \<Longrightarrow> 0 \<le> lo \<Longrightarrow> hi < int (length rs) \<Longrightarrow> r \<in> set rs"
proof (induction rs pos lo hi rule: findContainingRange_loop.induct)
  case (1 rs pos lo hi)
  show ?case
  proof (cases "lo \<le> hi")
    case False
    then show ?thesis using "1.prems"(1) by (simp add: findContainingRange_loop.simps)
  next
    case True
    define mid where "mid = (lo + hi) div 2"
    have mid: "lo \<le> mid" "mid \<le> hi" using True by (auto simp: mid_def)
    then have inb: "nat mid < length rs" using "1.prems" by auto
    consider (L) "pos < start (rs ! nat mid)"
      | (R) "\<not> pos < start (rs ! nat mid)" "end' (rs ! nat mid) \<le> pos"
      | (M) "\<not> pos < start (rs ! nat mid)" "\<not> end' (rs ! nat mid) \<le> pos"
      by blast
    then show ?thesis
    proof cases
      case L
      then have "findContainingRange_loop rs pos lo (mid - 1) = Some r"
        using "1.prems"(1) True by (subst (asm) findContainingRange_loop.simps) (simp add: Let_def mid_def)
      then show ?thesis
        using "1.IH"(1)[OF True mid_def refl L] "1.prems" mid by simp
    next
      case R
      then have "findContainingRange_loop rs pos (mid + 1) hi = Some r"
        using "1.prems"(1) True by (subst (asm) findContainingRange_loop.simps) (simp add: Let_def mid_def)
      then show ?thesis
        using "1.IH"(2)[OF True mid_def refl R(1)] R(2) "1.prems" mid by simp
    next
      case M
      then have "r = rs ! nat mid"
        using "1.prems"(1) True by (subst (asm) findContainingRange_loop.simps) (simp add: Let_def mid_def)
      then show ?thesis using inb by simp
    qed
  qed
qed

lemma findContainingRange_loop_complete:
  "goodRanges mx rs \<Longrightarrow> 0 \<le> lo \<Longrightarrow> hi < int (length rs) \<Longrightarrow> k < length rs \<Longrightarrow>
   inRange (rs ! k) pos \<Longrightarrow> lo \<le> int k \<Longrightarrow> int k \<le> hi \<Longrightarrow>
   findContainingRange_loop rs pos lo hi = Some (rs ! k)"
proof (induction rs pos lo hi rule: findContainingRange_loop.induct)
  case (1 rs pos lo hi)
  have lohi: "lo \<le> hi" using "1.prems" by linarith
  define mid where "mid = (lo + hi) div 2"
  have mid: "lo \<le> mid" "mid \<le> hi" using lohi by (auto simp: mid_def)
  then have inb: "nat mid < length rs" and mid0: "0 \<le> mid" using "1.prems" by auto
  have k: "start (rs ! k) \<le> pos" "pos < end' (rs ! k)" using "1.prems"(5) by (auto simp: inRange_def)
  have sep: "\<And>i j. i < j \<Longrightarrow> j < length rs \<Longrightarrow> end' (rs ! i) < start (rs ! j)"
    using goodRanges_nth[OF "1.prems"(1)] by blast
  have val: "\<And>i. i < length rs \<Longrightarrow> start (rs ! i) < end' (rs ! i)"
    using goodRanges_nth_valid[OF "1.prems"(1)] by blast
  consider (L) "pos < start (rs ! nat mid)"
    | (R) "\<not> pos < start (rs ! nat mid)" "end' (rs ! nat mid) \<le> pos"
    | (M) "\<not> pos < start (rs ! nat mid)" "\<not> end' (rs ! nat mid) \<le> pos"
    by blast
  then show ?case
  proof cases
    case L
    have "\<not> nat mid < k" using sep[of "nat mid" k] val[OF inb] k L "1.prems"(4) by force
    moreover have "k \<noteq> nat mid" using L k by auto
    ultimately have "int k \<le> mid - 1" using mid0 by linarith
    then have "findContainingRange_loop rs pos lo (mid - 1) = Some (rs ! k)"
      using "1.IH"(1)[OF lohi mid_def refl L] "1.prems" mid by simp
    then show ?thesis
      using L lohi by (subst findContainingRange_loop.simps) (simp add: Let_def mid_def)
  next
    case R
    have "\<not> k < nat mid" using sep[of k "nat mid"] val[OF inb] k R inb by force
    moreover have "k \<noteq> nat mid" using R k by auto
    ultimately have "mid + 1 \<le> int k" using mid0 by linarith
    then have "findContainingRange_loop rs pos (mid + 1) hi = Some (rs ! k)"
      using "1.IH"(2)[OF lohi mid_def refl R(1)] R(2) "1.prems" mid by simp
    then show ?thesis
      using R lohi by (subst findContainingRange_loop.simps) (simp add: Let_def mid_def)
  next
    case M
    have "\<not> k < nat mid" using sep[of k "nat mid"] k M inb by force
    moreover have "\<not> nat mid < k" using sep[of "nat mid" k] k M "1.prems"(4) by force
    ultimately have "k = nat mid" by linarith
    then show ?thesis
      using M lohi by (subst findContainingRange_loop.simps) (simp add: Let_def mid_def)
  qed
qed

lemma findContainingRange_Some:
  "findContainingRange rs pos = Some r \<Longrightarrow> r \<in> set rs \<and> inRange r pos"
  using findContainingRange_loop_sound[of rs pos 0 "int (length rs) - 1" r]
        findContainingRange_loop_bounds[of rs pos 0 "int (length rs) - 1" r]
  by (simp add: findContainingRange_def inRange_def)

lemma findContainingRange_None:
  assumes "goodRanges mx rs"
  shows "findContainingRange rs pos = None \<longleftrightarrow> \<not> covered rs pos"
proof
  assume "findContainingRange rs pos = None"
  show "\<not> covered rs pos"
  proof
    assume "covered rs pos"
    then obtain k where "k < length rs" "inRange (rs ! k) pos"
      by (auto simp: covered_def in_set_conv_nth)
    then have "findContainingRange rs pos = Some (rs ! k)"
      unfolding findContainingRange_def
      by (intro findContainingRange_loop_complete[OF assms]) auto
    then show False using \<open>findContainingRange rs pos = None\<close> by simp
  qed
next
  assume "\<not> covered rs pos"
  then show "findContainingRange rs pos = None"
    using findContainingRange_Some[of rs pos] by (cases "findContainingRange rs pos") (auto simp: covered_def)
qed

lemma skipForward_loop_props:
  assumes "goodRanges len rs"
  shows "c \<le> skipForward_loop rs len c
       \<and> (c \<le> len \<longrightarrow> skipForward_loop rs len c \<le> len)
       \<and> \<not> covered rs (skipForward_loop rs len c)
       \<and> (\<forall>x. c \<le> x \<and> x < skipForward_loop rs len c \<longrightarrow> covered rs x)"
  using assms
proof (induction rs len c rule: skipForward_loop.induct)
  case (1 rs len c)
  note good = "1.prems"
  have notcov_beyond: "\<not> covered rs x" if "len \<le> x" for x
    using good that by (auto simp: goodRanges_def validRange_def covered_def inRange_def)
  show ?case
  proof (cases "c < len")
    case False
    then have "skipForward_loop rs len c = c" by (simp add: skipForward_loop.simps)
    then show ?thesis using False notcov_beyond[of c] by auto
  next
    case True
    show ?thesis
    proof (cases "findContainingRange rs c")
      case None
      then have "skipForward_loop rs len c = c" using True by (simp add: skipForward_loop.simps)
      then show ?thesis using True None findContainingRange_None[OF good] by auto
    next
      case (Some r)
      then have eq: "skipForward_loop rs len c = skipForward_loop rs len (end' r)"
        using True by (simp add: skipForward_loop.simps)
      have r: "r \<in> set rs" "start r \<le> c" "c < end' r"
        using findContainingRange_Some[OF Some] by (auto simp: inRange_def)
      then have rlen: "end' r \<le> len" using good by (auto simp: goodRanges_def validRange_def)
      have IH: "end' r \<le> skipForward_loop rs len (end' r)
       \<and> (end' r \<le> len \<longrightarrow> skipForward_loop rs len (end' r) \<le> len)
       \<and> \<not> covered rs (skipForward_loop rs len (end' r))
       \<and> (\<forall>x. end' r \<le> x \<and> x < skipForward_loop rs len (end' r) \<longrightarrow> covered rs x)"
        using "1.IH"[OF True Some good] .
      have "covered rs x" if "c \<le> x" "x < skipForward_loop rs len (end' r)" for x
      proof (cases "x < end' r")
        case True
        then have "inRange r x" using r that by (simp add: inRange_def)
        then show ?thesis using r(1) unfolding covered_def by blast
      next
        case False
        then show ?thesis using IH that by simp
      qed
      then show ?thesis using eq IH r rlen by auto
    qed
  qed
qed

lemma skipForward_loop_fixed:
  "goodRanges len rs \<Longrightarrow> \<not> covered rs c \<Longrightarrow> skipForward_loop rs len c = c"
  using findContainingRange_None[of len rs c]
  by (subst skipForward_loop.simps) simp

lemma skipForward_loop_Nil [simp]: "skipForward_loop [] len c = c"
  by (subst skipForward_loop.simps)
     (simp add: findContainingRange_def findContainingRange_loop.simps)

lemma skipForwardIfNeeded_eq:
  "skipForwardIfNeeded s = s\<lparr>cursor := skipForward_loop (skipRanges s) (int (length (text' s))) (cursor s)\<rparr>"
  by (simp add: skipForwardIfNeeded_def)


lemma trimRange_inside:
  assumes "0 \<le> x" "x < mx"
  shows "(\<exists>r'. trimRange mx r = Some r' \<and> inRange r' x) \<longleftrightarrow> insideInput r x"
  using assms
  by (cases "start r"; cases "end' r")
     (auto simp: trimRange_def clampIndex_def insideInput_def inRange_def)

lemma covered_trimmedRanges:
  assumes "0 \<le> x" "x < mx"
  shows "covered (trimmedRanges ranges mx) x \<longleftrightarrow> (\<exists>r\<in>set ranges. insideInput r x)"
  using trimRange_inside[OF assms] by (auto simp: covered_def set_trimmedRanges) blast+

lemma covered_within:
  "goodRanges mx rs \<Longrightarrow> covered rs x \<Longrightarrow> 0 \<le> x \<and> x < mx"
  by (auto simp: goodRanges_def validRange_def covered_def inRange_def)

lemma foldl_plus: "foldl (\<lambda>total r. total + f r) a rs = a + sum_list (map f rs)" for a :: int
  by (induction rs arbitrary: a) simp_all

lemma sumRangeLengths_sum:
  "goodRanges mx rs \<Longrightarrow> sumRangeLengths rs = (\<Sum>r\<leftarrow>rs. end' r - start r)"
proof -
  assume g: "goodRanges mx rs"
  have "map (\<lambda>r. max 0 (end' r - start r)) rs = map (\<lambda>r. end' r - start r) rs"
    using g by (auto simp: goodRanges_def validRange_def)
  then have "sum_list (map (\<lambda>r. max 0 (end' r - start r)) rs) = sum_list (map (\<lambda>r. end' r - start r) rs)"
    by (rule arg_cong)
  then show ?thesis unfolding sumRangeLengths_def foldl_plus by simp
qed

lemma goodRanges_Cons: "goodRanges mx (r # rs) \<Longrightarrow> goodRanges mx rs"
  using separated_tl[of r rs] by (simp add: goodRanges_def)

lemma sum_card_covered:
  "goodRanges mx rs \<Longrightarrow> (\<Sum>r\<leftarrow>rs. end' r - start r) = int (card {x. covered rs x})"
proof (induction rs)
  case Nil
  show ?case by (simp add: covered_def)
next
  case (Cons r rs)
  have g: "goodRanges mx rs" using Cons.prems by (rule goodRanges_Cons)
  have fin: "finite {x. covered rs x}"
    by (rule finite_subset[of _ "{0..<mx}"]) (use covered_within[OF g] in auto)
  have r: "{x. inRange r x} = {start r..<end' r}" by (auto simp: inRange_def)
  have "end' r < start q" if "q \<in> set rs" for q
    using separated_later[of r rs q] Cons.prems that by (auto simp: goodRanges_def validRange_def)
  then have disj: "{start r..<end' r} \<inter> {x. covered rs x} = {}"
    by (fastforce simp: covered_def inRange_def)
  have "{x. covered (r # rs) x} = {start r..<end' r} \<union> {x. covered rs x}"
    using r by (auto simp: covered_def)
  then have "card {x. covered (r # rs) x} = card {start r..<end' r} + card {x. covered rs x}"
    using card_Un_disjoint[OF _ fin disj] by simp
  moreover have "start r < end' r" using Cons.prems by (simp add: goodRanges_def validRange_def)
  ultimately show ?case using Cons.IH[OF g] by simp
qed

lemma card_uncovered:
  assumes "goodRanges mx rs" "0 \<le> mx"
  shows "int (card {x. 0 \<le> x \<and> x < mx \<and> \<not> covered rs x}) = mx - int (card {x. covered rs x})"
proof -
  have sub: "{x. covered rs x} \<subseteq> {0..<mx}" using covered_within[OF assms(1)] by auto
  have "{x. 0 \<le> x \<and> x < mx \<and> \<not> covered rs x} = {0..<mx} - {x. covered rs x}" by auto
  then have "card {x. 0 \<le> x \<and> x < mx \<and> \<not> covered rs x} = card {0..<mx} - card {x. covered rs x}"
    using card_Diff_subset[of "{x. covered rs x}" "{0..<mx}"] sub finite_subset[OF sub] by simp
  moreover have "card {x. covered rs x} \<le> card {0..<mx}"
    using card_mono[OF _ sub] by simp
  ultimately show ?thesis using assms(2) by simp
qed

text \<open>The fields of a new engine.\<close>

lemma createTypingEngine_fields:
  "text' (createTypingEngine txt slack autoSkip ranges0 allow) = txt"
  "skipRanges (createTypingEngine txt slack autoSkip ranges0 allow) = mergeRanges ranges0 (int (length txt))"
  "cursor (createTypingEngine txt slack autoSkip ranges0 allow) =
     skipForward_loop (mergeRanges ranges0 (int (length txt))) (int (length txt)) 0"
  "typedEnd (createTypingEngine txt slack autoSkip ranges0 allow) = 0"
  "typeableChars (createTypingEngine txt slack autoSkip ranges0 allow) =
     max 0 (int (length txt) - sumRangeLengths (mergeRanges ranges0 (int (length txt))))"
  "marks (createTypingEngine txt slack autoSkip ranges0 allow) = replicate (length txt) UNTOUCHED"
  "countedCorrect (createTypingEngine txt slack autoSkip ranges0 allow) = replicate (length txt) False"
  "typedPositions (createTypingEngine txt slack autoSkip ranges0 allow) = []"
  "typedKeystrokes (createTypingEngine txt slack autoSkip ranges0 allow) = 0"
  "incorrect (createTypingEngine txt slack autoSkip ranges0 allow) = 0"
  "collateral (createTypingEngine txt slack autoSkip ranges0 allow) = 0"
  "backspaces (createTypingEngine txt slack autoSkip ranges0 allow) = 0"
  "correctChars (createTypingEngine txt slack autoSkip ranges0 allow) = 0"
  "errorActive (createTypingEngine txt slack autoSkip ranges0 allow) = False"
  "locked (createTypingEngine txt slack autoSkip ranges0 allow) = False"
  "autoSkipBlankLines (createTypingEngine txt slack autoSkip ranges0 allow) = autoSkip"
  "allowWhitespaceAdvanceToNewline (createTypingEngine txt slack autoSkip ranges0 allow) = allow"
  "slackN (createTypingEngine txt slack autoSkip ranges0 allow) = coerceSlack slack"
  by (simp_all add: createTypingEngine_def skipForwardIfNeeded_eq normalizeRanges_eq Let_def)

section \<open>Properties of a new engine\<close>

text \<open>
  Claim C10. Whatever ranges \<open>createTypingEngine\<close> is given (unsorted, overlapping, not
  integral, out of bounds, NaN or infinite), the engine stores ranges that are sorted and
  pairwise disjoint (each ends before the next starts), non-empty and within
  \<open>[0, len(text)]\<close>, and that cover exactly the offsets of the text inside some given
  range. \<open>typeableChars\<close> is \<open>len(text)\<close> minus the total length of the stored ranges,
  which is the number of offsets of the text inside no given range (nothing is subtracted
  twice), so \<open>0 \<le> typeableChars \<le> len(text)\<close>. The first cursor is the least offset of
  \<open>[0, len(text)]\<close> that is inside no stored range (inside: \<open>start \<le> x < end\<close>).
\<close>

theorem createTypingEngine_stores_merged_ranges:
  "let s = createTypingEngine txt slack autoSkip ranges0 allow;
       n = int (length txt)
   in (\<forall>i j. i < j \<and> j < length (skipRanges s) \<longrightarrow> end' (skipRanges s ! i) < start (skipRanges s ! j))
      \<and> (\<forall>r\<in>set (skipRanges s). 0 \<le> start r \<and> start r < end' r \<and> end' r \<le> n)
      \<and> (\<forall>x. covered (skipRanges s) x \<longleftrightarrow> 0 \<le> x \<and> x < n \<and> (\<exists>r\<in>set ranges0. insideInput r x))
      \<and> typeableChars s = n - (\<Sum>r\<leftarrow>skipRanges s. end' r - start r)
      \<and> typeableChars s = int (card {x. 0 \<le> x \<and> x < n \<and> \<not> (\<exists>r\<in>set ranges0. insideInput r x)})
      \<and> 0 \<le> typeableChars s \<and> typeableChars s \<le> n
      \<and> 0 \<le> cursor s \<and> cursor s \<le> n
      \<and> \<not> covered (skipRanges s) (cursor s)
      \<and> (\<forall>x. 0 \<le> x \<and> x < cursor s \<longrightarrow> covered (skipRanges s) x)"
proof -
  define n where "n = int (length txt)"
  define rs where "rs = mergeRanges ranges0 n"
  define s where "s = createTypingEngine txt slack autoSkip ranges0 allow"
  have n0: "0 \<le> n" by (simp add: n_def)
  have good: "goodRanges n rs" unfolding rs_def using n0 by (rule mergeRanges_good)
  have f: "skipRanges s = rs" "cursor s = skipForward_loop rs n 0"
    "typeableChars s = max 0 (n - sumRangeLengths rs)"
    by (simp_all add: s_def rs_def n_def createTypingEngine_fields)
  have sep: "\<forall>i j. i < j \<and> j < length rs \<longrightarrow> end' (rs ! i) < start (rs ! j)"
    using goodRanges_nth[OF good] by blast
  have val: "\<forall>r\<in>set rs. 0 \<le> start r \<and> start r < end' r \<and> end' r \<le> n"
    using good by (simp add: goodRanges_def validRange_def)
  have cov: "covered rs x \<longleftrightarrow> 0 \<le> x \<and> x < n \<and> (\<exists>r\<in>set ranges0. insideInput r x)" for x
  proof (cases "0 \<le> x \<and> x < n")
    case True
    then show ?thesis
      using mergeRanges_covered[OF n0, of ranges0 x] covered_trimmedRanges[of x n ranges0]
      by (simp add: rs_def)
  next
    case False
    then show ?thesis using covered_within[OF good, of x] by blast
  qed
  have sum: "sumRangeLengths rs = (\<Sum>r\<leftarrow>rs. end' r - start r)"
    using good by (rule sumRangeLengths_sum)
  have unc: "int (card {x. 0 \<le> x \<and> x < n \<and> \<not> covered rs x}) = n - sumRangeLengths rs"
    using card_uncovered[OF good n0] sum_card_covered[OF good] sum by simp
  then have nonneg: "0 \<le> n - sumRangeLengths rs" by linarith
  have le: "n - sumRangeLengths rs \<le> n"
    using sum_card_covered[OF good] sum by simp
  have cardeq: "{x. 0 \<le> x \<and> x < n \<and> \<not> covered rs x} = {x. 0 \<le> x \<and> x < n \<and> \<not> (\<exists>r\<in>set ranges0. insideInput r x)}"
    using cov by auto
  have cur: "0 \<le> skipForward_loop rs n 0" "skipForward_loop rs n 0 \<le> n"
    "\<not> covered rs (skipForward_loop rs n 0)"
    "\<forall>x. 0 \<le> x \<and> x < skipForward_loop rs n 0 \<longrightarrow> covered rs x"
    using skipForward_loop_props[OF good, of 0] n0 by auto
  have "(\<forall>i j. i < j \<and> j < length (skipRanges s) \<longrightarrow> end' (skipRanges s ! i) < start (skipRanges s ! j))
      \<and> (\<forall>r\<in>set (skipRanges s). 0 \<le> start r \<and> start r < end' r \<and> end' r \<le> n)
      \<and> (\<forall>x. covered (skipRanges s) x \<longleftrightarrow> 0 \<le> x \<and> x < n \<and> (\<exists>r\<in>set ranges0. insideInput r x))
      \<and> typeableChars s = n - (\<Sum>r\<leftarrow>skipRanges s. end' r - start r)
      \<and> typeableChars s = int (card {x. 0 \<le> x \<and> x < n \<and> \<not> (\<exists>r\<in>set ranges0. insideInput r x)})
      \<and> 0 \<le> typeableChars s \<and> typeableChars s \<le> n
      \<and> 0 \<le> cursor s \<and> cursor s \<le> n
      \<and> \<not> covered (skipRanges s) (cursor s)
      \<and> (\<forall>x. 0 \<le> x \<and> x < cursor s \<longrightarrow> covered (skipRanges s) x)"
    unfolding f using sep val cov sum unc nonneg le cur cardeq by (intro conjI) simp_all
  then show ?thesis unfolding s_def n_def Let_def .
qed


theorem createTypingEngine_stores_merged_ranges_witness:
  "let s = createTypingEngine (js ''abcdefghij'') (Fin 3) True
           [\<lparr>start = Fin 6, end' = Fin 12\<rparr>, \<lparr>start = Fin 0, end' = Fin 2.5\<rparr>,
            \<lparr>start = Fin 1, end' = Fin 2\<rparr>, \<lparr>start = Fin (-3), end' = Fin 1\<rparr>,
            \<lparr>start = NaN, end' = Fin 5\<rparr>] False
   in skipRanges s = [\<lparr>start = 0, end' = 2\<rparr>, \<lparr>start = 6, end' = 10\<rparr>]
      \<and> end' (skipRanges s ! 0) < start (skipRanges s ! 1)
      \<and> typeableChars s = 4 \<and> cursor s = 2
      \<and> covered (skipRanges s) 1 \<and> \<not> covered (skipRanges s) 2"
proof -
  define s where "s = createTypingEngine (js ''abcdefghij'') (Fin 3) True
           [\<lparr>start = Fin 6, end' = Fin 12\<rparr>, \<lparr>start = Fin 0, end' = Fin 2.5\<rparr>,
            \<lparr>start = Fin 1, end' = Fin 2\<rparr>, \<lparr>start = Fin (-3), end' = Fin 1\<rparr>,
            \<lparr>start = NaN, end' = Fin 5\<rparr>] False"
  have rs: "skipRanges s = [\<lparr>start = 0, end' = 2\<rparr>, \<lparr>start = 6, end' = 10\<rparr>]"
    unfolding s_def by code_simp
  have tc: "typeableChars s = 4" and cu: "cursor s = 2"
    unfolding s_def by code_simp+
  note t = createTypingEngine_stores_merged_ranges[of "js ''abcdefghij''" "Fin 3" True
           "[\<lparr>start = Fin 6, end' = Fin 12\<rparr>, \<lparr>start = Fin 0, end' = Fin 2.5\<rparr>,
            \<lparr>start = Fin 1, end' = Fin 2\<rparr>, \<lparr>start = Fin (-3), end' = Fin 1\<rparr>,
            \<lparr>start = NaN, end' = Fin 5\<rparr>]" False, unfolded Let_def, folded s_def]
  from t have "\<forall>i j. i < j \<and> j < length (skipRanges s) \<longrightarrow> end' (skipRanges s ! i) < start (skipRanges s ! j)"
    by (rule conjunct1)
  then have sep: "end' (skipRanges s ! 0) < start (skipRanges s ! 1)"
    using rs by simp
  from t have c2: "\<not> covered (skipRanges s) (cursor s)" and c1: "\<forall>x. 0 \<le> x \<and> x < cursor s \<longrightarrow> covered (skipRanges s) x"
    by blast+
  from c1 have "covered (skipRanges s) 1" using cu by simp
  with c2 sep rs tc cu show ?thesis
    unfolding Let_def s_def[symmetric] by simp
qed


section \<open>The invariant of the typing engine\<close>

subsection \<open>setMark\<close>

lemma setMark_fields [simp]:
  "skipRanges (setMark s idx nxt cc) = skipRanges s"
  "typedEnd (setMark s idx nxt cc) = typedEnd s"
  "typedPositions (setMark s idx nxt cc) = typedPositions s"
  "errorActive (setMark s idx nxt cc) = errorActive s"
  "firstErrorIndex (setMark s idx nxt cc) = firstErrorIndex s"
  "firstErrorTypedProgress (setMark s idx nxt cc) = firstErrorTypedProgress s"
  "locked (setMark s idx nxt cc) = locked s"
  "slackN (setMark s idx nxt cc) = slackN s"
  "autoSkipBlankLines (setMark s idx nxt cc) = autoSkipBlankLines s"
  "allowWhitespaceAdvanceToNewline (setMark s idx nxt cc) = allowWhitespaceAdvanceToNewline s"
  "typeableChars (setMark s idx nxt cc) = typeableChars s"
  "typedKeystrokes (setMark s idx nxt cc) = typedKeystrokes s"
  "incorrect (setMark s idx nxt cc) = incorrect s"
  "collateral (setMark s idx nxt cc) = collateral s"
  "backspaces (setMark s idx nxt cc) = backspaces s"
  by (simp_all add: setMark_def Let_def)

lemma setMark_marks:
  "0 \<le> idx \<Longrightarrow> idx < int (length (marks s)) \<Longrightarrow> length (countedCorrect s) = length (marks s) \<Longrightarrow>
   marks (setMark s idx nxt cc) = (marks s)[nat idx := nxt]
   \<and> countedCorrect (setMark s idx nxt cc) = (countedCorrect s)[nat idx := (nxt = CORRECT \<and> cc)]
   \<and> correctChars (setMark s idx nxt cc) =
       correctChars s + (if nxt = CORRECT \<and> cc then 1 else 0)
         - (if marks s ! nat idx = CORRECT \<and> countedCorrect s ! nat idx then 1 else 0)"
proof -
  assume a: "0 \<le> idx" "idx < int (length (marks s))" "length (countedCorrect s) = length (marks s)"
  then have "nat idx < length (marks s)" "nat idx < length (countedCorrect s)" by simp_all
  then show ?thesis using a(1,2) by (simp add: setMark_def Let_def storeFlag_def)
qed

lemma count_true_update:
  "i < length xs \<Longrightarrow>
   int (length (filter (\<lambda>b. b) (xs[i := v]))) =
     int (length (filter (\<lambda>b. b) xs)) + (if v then 1 else 0) - (if xs ! i then 1 else 0)"
proof -
  assume i: "i < length xs"
  have a: "xs[i := v] = take i xs @ v # drop (Suc i) xs" using i by (rule upd_conv_take_nth_drop)
  have b: "xs = take i xs @ xs ! i # drop (Suc i) xs" using i by (rule id_take_nth_drop)
  have "int (length (filter (\<lambda>b. b) (take i xs @ v # drop (Suc i) xs))) =
        int (length (filter (\<lambda>b. b) (take i xs @ xs ! i # drop (Suc i) xs))) + (if v then 1 else 0) - (if xs ! i then 1 else 0)"
    by simp
  then show ?thesis using a b by metis
qed

lemma setMark_markInv:
  assumes "markInv s" "0 \<le> idx" "idx < int (length (text' s))"
  shows "markInv (setMark s idx nxt cc)"
proof -
  have len: "length (marks s) = length (text' s)" "length (countedCorrect s) = length (text' s)"
    and cnt: "correctChars s = int (length (filter (\<lambda>b. b) (countedCorrect s)))"
    and cor: "\<forall>i < length (text' s). countedCorrect s ! i \<longrightarrow> marks s ! i = CORRECT"
    using assms(1) by (simp_all add: markInv_def)
  have i: "nat idx < length (text' s)" using assms(2,3) by simp
  note m = setMark_marks[of idx s nxt cc]
  have m1: "marks (setMark s idx nxt cc) = (marks s)[nat idx := nxt]"
    and m2: "countedCorrect (setMark s idx nxt cc) = (countedCorrect s)[nat idx := (nxt = CORRECT \<and> cc)]"
    and m3: "correctChars (setMark s idx nxt cc) =
       correctChars s + (if nxt = CORRECT \<and> cc then 1 else 0)
         - (if marks s ! nat idx = CORRECT \<and> countedCorrect s ! nat idx then 1 else 0)"
    using m assms(2,3) len by simp_all
  have prev: "(marks s ! nat idx = CORRECT \<and> countedCorrect s ! nat idx) = countedCorrect s ! nat idx"
    using cor i by blast
  have c: "correctChars (setMark s idx nxt cc) = int (length (filter (\<lambda>b. b) (countedCorrect (setMark s idx nxt cc))))"
    unfolding m2 m3 prev cnt using count_true_update[of "nat idx" "countedCorrect s" "nxt = CORRECT \<and> cc"] i len
    by simp
  have d: "\<forall>i < length (text' s). countedCorrect (setMark s idx nxt cc) ! i \<longrightarrow> marks (setMark s idx nxt cc) ! i = CORRECT"
    unfolding m1 m2 using cor len i by (auto simp: nth_list_update)
  show ?thesis
    unfolding markInv_def using c d len by (simp add: m1 m2)
qed

lemma setMark_userTyped:
  assumes "markInv s" "0 \<le> idx" "idx < int (length (text' s))"
  shows "userTyped (setMark s idx nxt cc) i \<longleftrightarrow>
           (if i = idx then (nxt = INCORRECT \<or> nxt = COLLATERAL \<or> (nxt = CORRECT \<and> cc)) else userTyped s i)"
proof -
  have len: "length (marks s) = length (text' s)" "length (countedCorrect s) = length (text' s)"
    using assms(1) by (simp_all add: markInv_def)
  have m1: "marks (setMark s idx nxt cc) = (marks s)[nat idx := nxt]"
    and m2: "countedCorrect (setMark s idx nxt cc) = (countedCorrect s)[nat idx := (nxt = CORRECT \<and> cc)]"
    using setMark_marks[of idx s nxt cc] assms(2,3) len by simp_all
  show ?thesis
  proof (cases "i = idx")
    case True
    then show ?thesis using assms(2,3) len by (auto simp: userTyped_def m1 m2)
  next
    case False
    then have "0 \<le> i \<Longrightarrow> nat i \<noteq> nat idx" using assms(2) by auto
    then show ?thesis using False by (auto simp: userTyped_def m1 m2)
  qed
qed


subsection \<open>The invariant reads only some fields\<close>

lemma posInv_cong:
  "text' s' = text' s \<Longrightarrow> skipRanges s' = skipRanges s \<Longrightarrow> cursor s' = cursor s \<Longrightarrow>
   typedEnd s' = typedEnd s \<Longrightarrow> typedPositions s' = typedPositions s \<Longrightarrow> posInv s' = posInv s"
  by (simp add: posInv_def)

lemma markInv_cong:
  "text' s' = text' s \<Longrightarrow> marks s' = marks s \<Longrightarrow> countedCorrect s' = countedCorrect s \<Longrightarrow>
   correctChars s' = correctChars s \<Longrightarrow> markInv s' = markInv s"
  by (simp add: markInv_def)

lemma userTyped_cong:
  "marks s' = marks s \<Longrightarrow> countedCorrect s' = countedCorrect s \<Longrightarrow> userTyped s' i = userTyped s i"
  by (simp add: userTyped_def)

lemma typedInv_cong:
  "typedPositions s' = typedPositions s \<Longrightarrow> marks s' = marks s \<Longrightarrow>
   countedCorrect s' = countedCorrect s \<Longrightarrow> typedInv s' = typedInv s"
  by (simp add: typedInv_def userTyped_def)

lemma counterInv_cong:
  "typeableChars s' = typeableChars s \<Longrightarrow> typedKeystrokes s' = typedKeystrokes s \<Longrightarrow>
   incorrect s' = incorrect s \<Longrightarrow> collateral s' = collateral s \<Longrightarrow> backspaces s' = backspaces s \<Longrightarrow>
   counterInv s' = counterInv s"
  by (simp add: counterInv_def)

lemma coreInv_cursor_nonneg: "coreInv s \<Longrightarrow> 0 \<le> cursor s"
  by (simp add: coreInv_def posInv_def)

lemma coreInv_not_typed_beyond:
  assumes "coreInv s" "typedEnd s \<le> i"
  shows "\<not> userTyped s i"
proof
  assume "userTyped s i"
  then have "i \<in> set (typedPositions s)" using assms(1) by (simp add: coreInv_def typedInv_def)
  then have "i < typedEnd s" using assms(1) by (simp add: coreInv_def posInv_def)
  then show False using assms(2) by simp
qed

subsection \<open>Typing one position\<close>

lemma coreInv_typed:
  assumes inv: "coreInv s" and nc: "\<not> covered (skipRanges s) (cursor s)"
    and lt: "cursor s < int (length (text' s))"
    and um: "m = INCORRECT \<or> m = COLLATERAL \<or> (m = CORRECT \<and> cc)"
    and f: "text' s' = text' s" "skipRanges s' = skipRanges s"
      "marks s' = marks (setMark s (cursor s) m cc)"
      "countedCorrect s' = countedCorrect (setMark s (cursor s) m cc)"
      "correctChars s' = correctChars (setMark s (cursor s) m cc)"
      "typedPositions s' = typedPositions s @ [cursor s]"
      "cursor s' = cursor s + 1" "typedEnd s' = cursor s + 1"
    and c: "counterInv s'"
  shows "coreInv s'"
proof -
  have p: "posInv s" and mk: "markInv s" and t: "typedInv s"
    using inv by (simp_all add: coreInv_def)
  have c0: "0 \<le> cursor s" using inv by (rule coreInv_cursor_nonneg)
  have below: "\<forall>q\<in>set (typedPositions s). q < cursor s"
    using p by (auto simp: posInv_def)
  have "posInv s'"
    unfolding posInv_def f using p c0 lt nc below
    by (auto simp: posInv_def sorted_wrt_append)
  moreover have "markInv s'"
  proof -
    have "markInv (setMark s (cursor s) m cc)" using mk c0 lt by (rule setMark_markInv)
    moreover have "markInv s' = markInv (setMark s (cursor s) m cc)"
      by (rule markInv_cong) (simp_all add: f)
    ultimately show ?thesis by simp
  qed
  moreover have "typedInv s'"
  proof -
    have "userTyped s' i \<longleftrightarrow> (if i = cursor s then True else userTyped s i)" for i
    proof -
      have "userTyped s' i = userTyped (setMark s (cursor s) m cc) i"
        by (rule userTyped_cong) (simp_all add: f)
      then show ?thesis using setMark_userTyped[OF mk c0 lt, of m cc i] um by auto
    qed
    then have "{i. userTyped s' i} = insert (cursor s) {i. userTyped s i}" by auto
    then show ?thesis using t by (simp add: typedInv_def f)
  qed
  ultimately show ?thesis using c by (simp add: coreInv_def)
qed

subsection \<open>Walking over newlines\<close>

lemma coreInv_walk_step:
  assumes inv: "coreInv s" and lt: "cursor s < int (length (text' s))"
  shows "coreInv ((setMark s (cursor s) CORRECT False)\<lparr>cursor := cursor s + 1\<rparr>)"
proof -
  let ?m = "setMark s (cursor s) CORRECT False"
  let ?s = "?m\<lparr>cursor := cursor s + 1\<rparr>"
  have p: "posInv s" and mk: "markInv s" and t: "typedInv s" and c: "counterInv s"
    using inv by (simp_all add: coreInv_def)
  have c0: "0 \<le> cursor s" using inv by (rule coreInv_cursor_nonneg)
  have "posInv ?s" using p lt by (simp add: posInv_def)
  moreover have "markInv ?s"
  proof -
    have "markInv ?m" using mk c0 lt by (rule setMark_markInv)
    moreover have "markInv ?s = markInv ?m" by (rule markInv_cong) simp_all
    ultimately show ?thesis by simp
  qed
  moreover have "typedInv ?s"
  proof -
    have nt: "\<not> userTyped s (cursor s)"
      using inv p by (intro coreInv_not_typed_beyond) (simp_all add: posInv_def)
    have "userTyped ?s i \<longleftrightarrow> userTyped s i" for i
    proof -
      have "userTyped ?s i = userTyped ?m i" by (rule userTyped_cong) simp_all
      then show ?thesis using setMark_userTyped[OF mk c0 lt, of CORRECT False i] nt by auto
    qed
    then show ?thesis using t by (simp add: typedInv_def)
  qed
  moreover have "counterInv ?s" using c by (simp add: counterInv_def)
  ultimately show ?thesis by (simp add: coreInv_def)
qed

lemma autoSkipNewlines_coreInv:
  "coreInv s \<Longrightarrow> coreInv (autoSkipNewlines s)"
proof (induction s rule: autoSkipNewlines.induct)
  case (1 s)
  show ?case
  proof (cases "cursor s < int (length (text' s)) \<and> charAt (text' s) (cursor s) = Some NL")
    case True
    have "coreInv ((setMark s (cursor s) CORRECT False)\<lparr>cursor := cursor s + 1\<rparr>)"
      using "1.prems" True by (intro coreInv_walk_step) simp_all
    then have "coreInv (autoSkipNewlines ((setMark s (cursor s) CORRECT False)\<lparr>cursor := cursor s + 1\<rparr>))"
      using "1.IH"[OF True] by simp
    moreover have "autoSkipNewlines s =
        autoSkipNewlines ((setMark s (cursor s) CORRECT False)\<lparr>cursor := cursor s + 1\<rparr>)"
      using True by (subst autoSkipNewlines.simps) (simp only: simp_thms if_True)
    ultimately show ?thesis by simp
  next
    case False
    have "autoSkipNewlines s = s"
      using False by (subst autoSkipNewlines.simps) (simp only: simp_thms if_False)
    then show ?thesis using "1.prems" by simp
  qed
qed

lemma coreInv_typedEnd_cursor:
  assumes "coreInv s"
  shows "coreInv (s\<lparr>typedEnd := cursor s\<rparr>)"
proof -
  have "posInv (s\<lparr>typedEnd := cursor s\<rparr>)"
    using assms by (fastforce simp: coreInv_def posInv_def)
  moreover have "markInv (s\<lparr>typedEnd := cursor s\<rparr>) = markInv s" by (rule markInv_cong) simp_all
  moreover have "typedInv (s\<lparr>typedEnd := cursor s\<rparr>) = typedInv s" by (rule typedInv_cong) simp_all
  moreover have "counterInv (s\<lparr>typedEnd := cursor s\<rparr>) = counterInv s" by (rule counterInv_cong) simp_all
  ultimately show ?thesis using assms by (simp add: coreInv_def)
qed

subsection \<open>Skipping forward restores the whole invariant\<close>

lemma skipForwardIfNeeded_fields [simp]:
  "text' (skipForwardIfNeeded s) = text' s"
  "skipRanges (skipForwardIfNeeded s) = skipRanges s"
  "typedEnd (skipForwardIfNeeded s) = typedEnd s"
  "typedPositions (skipForwardIfNeeded s) = typedPositions s"
  "marks (skipForwardIfNeeded s) = marks s"
  "countedCorrect (skipForwardIfNeeded s) = countedCorrect s"
  "correctChars (skipForwardIfNeeded s) = correctChars s"
  "errorActive (skipForwardIfNeeded s) = errorActive s"
  "firstErrorIndex (skipForwardIfNeeded s) = firstErrorIndex s"
  "firstErrorTypedProgress (skipForwardIfNeeded s) = firstErrorTypedProgress s"
  "locked (skipForwardIfNeeded s) = locked s"
  "slackN (skipForwardIfNeeded s) = slackN s"
  "autoSkipBlankLines (skipForwardIfNeeded s) = autoSkipBlankLines s"
  "allowWhitespaceAdvanceToNewline (skipForwardIfNeeded s) = allowWhitespaceAdvanceToNewline s"
  "typeableChars (skipForwardIfNeeded s) = typeableChars s"
  "typedKeystrokes (skipForwardIfNeeded s) = typedKeystrokes s"
  "incorrect (skipForwardIfNeeded s) = incorrect s"
  "collateral (skipForwardIfNeeded s) = collateral s"
  "backspaces (skipForwardIfNeeded s) = backspaces s"
  by (simp_all add: skipForwardIfNeeded_eq)

lemma skipForwardIfNeeded_cursor:
  "cursor (skipForwardIfNeeded s) = skipForward_loop (skipRanges s) (int (length (text' s))) (cursor s)"
  by (simp add: skipForwardIfNeeded_eq)

lemma skipForwardIfNeeded_engineInv:
  assumes "coreInv s"
  shows "engineInv (skipForwardIfNeeded s)"
proof -
  let ?s = "skipForwardIfNeeded s"
  have p: "posInv s" using assms by (simp add: coreInv_def)
  then have good: "goodRanges (int (length (text' s))) (skipRanges s)" by (simp add: posInv_def)
  note props = skipForward_loop_props[OF good, of "cursor s"]
  have "posInv ?s"
    using p props by (simp add: posInv_def skipForwardIfNeeded_cursor)
  moreover have "markInv ?s = markInv s" by (rule markInv_cong) simp_all
  moreover have "typedInv ?s = typedInv s" by (rule typedInv_cong) simp_all
  moreover have "counterInv ?s = counterInv s" by (rule counterInv_cong) simp_all
  moreover have "\<not> covered (skipRanges ?s) (cursor ?s)"
    using props by (simp add: skipForwardIfNeeded_cursor)
  ultimately show ?thesis using assms by (simp add: engineInv_def coreInv_def)
qed

lemma skipForwardIfNeeded_id:
  assumes "engineInv s"
  shows "skipForwardIfNeeded s = s"
proof -
  have "goodRanges (int (length (text' s))) (skipRanges s)" "\<not> covered (skipRanges s) (cursor s)"
    using assms by (simp_all add: engineInv_def coreInv_def posInv_def)
  then have "skipForward_loop (skipRanges s) (int (length (text' s))) (cursor s) = cursor s"
    by (rule skipForward_loop_fixed)
  then show ?thesis by (simp add: skipForwardIfNeeded_eq)
qed


subsection \<open>handleKey keeps the invariant\<close>

lemma engineInv_if:
  "(c \<Longrightarrow> engineInv a) \<Longrightarrow> (\<not> c \<Longrightarrow> engineInv b) \<Longrightarrow> engineInv (if c then a else b)"
  by simp

lemma handleKey_engineInv:
  assumes inv: "engineInv s"
  shows "engineInv (handleKey s ch)"
proof -
  define s1 where "s1 = s\<lparr>typedKeystrokes := typedKeystrokes s + 1\<rparr>"
  have core: "coreInv s" and nc: "\<not> covered (skipRanges s) (cursor s)"
    using inv by (simp_all add: engineInv_def)
  have core1: "coreInv s1"
  proof -
    have "posInv s1 = posInv s" by (rule posInv_cong) (simp_all add: s1_def)
    moreover have "markInv s1 = markInv s" by (rule markInv_cong) (simp_all add: s1_def)
    moreover have "typedInv s1 = typedInv s" by (rule typedInv_cong) (simp_all add: s1_def)
    moreover have "counterInv s1" using core by (simp add: coreInv_def counterInv_def s1_def)
    ultimately show ?thesis using core by (simp add: coreInv_def)
  qed
  have nc1: "\<not> covered (skipRanges s1) (cursor s1)" using nc by (simp add: s1_def)
  have inv1: "engineInv s1" using core1 nc1 by (simp add: engineInv_def)
  have id1: "skipForwardIfNeeded s1 = s1" using inv1 by (rule skipForwardIfNeeded_id)
  have cnt: "counterInv s1" using core1 by (simp add: coreInv_def)
  have "engineInv
     (if ch = [] then s
      else
        if locked s1 then s1
        else
          if cursor s1 \<ge> int (length (text' s1)) then s1
          else
            if \<not> errorActive s1 then
              (if Some (if allowWhitespaceAdvanceToNewline s1 \<and> hd ch = SPACE \<and> charAt (text' s1) (cursor s1) = Some NL
                            then NL else hd ch) = charAt (text' s1) (cursor s1) then
                 (if ((if allowWhitespaceAdvanceToNewline s1 \<and> hd ch = SPACE \<and> charAt (text' s1) (cursor s1) = Some NL
                            then NL else hd ch) = NL \<and> charAt (text' s1) (cursor s1) = Some NL) \<and> autoSkipBlankLines s1 then
                    (let s3 = setMark s1 (cursor s1) CORRECT True;
                         s4 = s3\<lparr>typedPositions := typedPositions s3 @ [cursor s3]\<rparr>;
                         s5 = s4\<lparr>cursor := cursor s4 + 1\<rparr>;
                         s6 = s5\<lparr>typedEnd := cursor s5\<rparr>;
                         s7 = autoSkipNewlines s6;
                         s8 = s7\<lparr>typedEnd := cursor s7\<rparr>
                     in skipForwardIfNeeded s8)
                  else
                    (let s3 = setMark s1 (cursor s1) CORRECT True;
                         s4 = s3\<lparr>typedPositions := typedPositions s3 @ [cursor s3]\<rparr>;
                         s5 = s4\<lparr>cursor := cursor s4 + 1\<rparr>;
                         s6 = s5\<lparr>typedEnd := cursor s5\<rparr>
                     in skipForwardIfNeeded s6))
               else
                 (let typedProgressBefore = int (length (typedPositions s1));
                      s3 = setMark s1 (cursor s1) INCORRECT False;
                      s4 = s3\<lparr>typedPositions := typedPositions s3 @ [cursor s3]\<rparr>;
                      s5 = s4\<lparr>incorrect := incorrect s4 + 1,
                               errorActive := True,
                               firstErrorIndex := cursor s4,
                               firstErrorTypedProgress := typedProgressBefore\<rparr>;
                      s6 = s5\<lparr>cursor := cursor s5 + 1\<rparr>;
                      s7 = s6\<lparr>typedEnd := cursor s6\<rparr>
                  in skipForwardIfNeeded s7))
            else
              (if (if firstErrorTypedProgress s1 \<ge> 0
                      then int (length (typedPositions s1)) - firstErrorTypedProgress s1
                      else cursor s1 - firstErrorIndex s1) \<le> slackN s1 then
                 (let s3 = setMark s1 (cursor s1) COLLATERAL False;
                      s4 = s3\<lparr>typedPositions := typedPositions s3 @ [cursor s3]\<rparr>;
                      s5 = s4\<lparr>collateral := collateral s4 + 1\<rparr>;
                      s6 = s5\<lparr>cursor := cursor s5 + 1\<rparr>;
                      s7 = s6\<lparr>typedEnd := cursor s6\<rparr>
                  in skipForwardIfNeeded s7)
               else s1\<lparr>locked := True\<rparr>))"
    unfolding Let_def
  proof (intro engineInv_if)
    show "engineInv s" by (rule inv)
    show "engineInv s1" by (rule inv1)
    show "engineInv s1" by (rule inv1)
  next
    assume lt: "\<not> int (length (text' s1)) \<le> cursor s1"
    let ?Y = "setMark s1 (cursor s1) CORRECT True
              \<lparr>typedPositions := typedPositions (setMark s1 (cursor s1) CORRECT True) @ [cursor (setMark s1 (cursor s1) CORRECT True)]\<rparr>
              \<lparr>cursor := cursor (setMark s1 (cursor s1) CORRECT True
                   \<lparr>typedPositions := typedPositions (setMark s1 (cursor s1) CORRECT True) @ [cursor (setMark s1 (cursor s1) CORRECT True)]\<rparr>) + 1\<rparr>"
    have Y: "coreInv (?Y\<lparr>typedEnd := cursor ?Y\<rparr>)"
      using core1 nc1 by (rule coreInv_typed[where m = CORRECT and cc = True])
        (use lt cnt in \<open>simp_all add: counterInv_def\<close>)
    show "engineInv (skipForwardIfNeeded (?Y\<lparr>typedEnd := cursor ?Y\<rparr>))"
      using Y by (rule skipForwardIfNeeded_engineInv)
    let ?W = "autoSkipNewlines (?Y\<lparr>typedEnd := cursor ?Y\<rparr>)"
    have "coreInv ?W" using Y by (rule autoSkipNewlines_coreInv)
    then have "coreInv (?W\<lparr>typedEnd := cursor ?W\<rparr>)" by (rule coreInv_typedEnd_cursor)
    then show "engineInv (skipForwardIfNeeded (?W\<lparr>typedEnd := cursor ?W\<rparr>))"
      by (rule skipForwardIfNeeded_engineInv)
  next
    assume lt: "\<not> int (length (text' s1)) \<le> cursor s1"
    let ?m = "setMark s1 (cursor s1) INCORRECT False"
    let ?X = "?m\<lparr>typedPositions := typedPositions ?m @ [cursor ?m]\<rparr>
                \<lparr>incorrect := incorrect (?m\<lparr>typedPositions := typedPositions ?m @ [cursor ?m]\<rparr>) + 1,
                  errorActive := True,
                  firstErrorIndex := cursor (?m\<lparr>typedPositions := typedPositions ?m @ [cursor ?m]\<rparr>),
                  firstErrorTypedProgress := int (length (typedPositions s1))\<rparr>"
    let ?X6 = "?X\<lparr>cursor := cursor ?X + 1\<rparr>"
    have "coreInv (?X6\<lparr>typedEnd := cursor ?X6\<rparr>)"
      using core1 nc1 by (rule coreInv_typed[where m = INCORRECT and cc = False])
        (use lt cnt in \<open>simp_all add: counterInv_def\<close>)
    then show "engineInv (skipForwardIfNeeded (?X6\<lparr>typedEnd := cursor ?X6\<rparr>))"
      by (rule skipForwardIfNeeded_engineInv)
  next
    assume lt: "\<not> int (length (text' s1)) \<le> cursor s1"
    let ?m = "setMark s1 (cursor s1) COLLATERAL False"
    let ?X = "?m\<lparr>typedPositions := typedPositions ?m @ [cursor ?m]\<rparr>
                \<lparr>collateral := collateral (?m\<lparr>typedPositions := typedPositions ?m @ [cursor ?m]\<rparr>) + 1\<rparr>"
    let ?X6 = "?X\<lparr>cursor := cursor ?X + 1\<rparr>"
    have "coreInv (?X6\<lparr>typedEnd := cursor ?X6\<rparr>)"
      using core1 nc1 by (rule coreInv_typed[where m = COLLATERAL and cc = False])
        (use lt cnt in \<open>simp_all add: counterInv_def\<close>)
    then show "engineInv (skipForwardIfNeeded (?X6\<lparr>typedEnd := cursor ?X6\<rparr>))"
      by (rule skipForwardIfNeeded_engineInv)
  next
    have "posInv (s1\<lparr>locked := True\<rparr>) = posInv s1" by (rule posInv_cong) simp_all
    moreover have "markInv (s1\<lparr>locked := True\<rparr>) = markInv s1" by (rule markInv_cong) simp_all
    moreover have "typedInv (s1\<lparr>locked := True\<rparr>) = typedInv s1" by (rule typedInv_cong) simp_all
    moreover have "counterInv (s1\<lparr>locked := True\<rparr>) = counterInv s1" by (rule counterInv_cong) simp_all
    ultimately show "engineInv (s1\<lparr>locked := True\<rparr>)"
      using inv1 by (simp add: engineInv_def coreInv_def)
  qed
  then show ?thesis
    unfolding handleKey_def Let_def s1_def[symmetric] id1 .
qed


subsection \<open>handleBackspace keeps the invariant\<close>

lemma coreInv_backspace_pop:
  assumes inv: "coreInv s" and ne: "typedPositions s \<noteq> []"
    and X: "text' X = text' s" "skipRanges X = skipRanges s" "marks X = marks s"
      "countedCorrect X = countedCorrect s" "correctChars X = correctChars s"
      "typedPositions X = butlast (typedPositions s)"
      "cursor X = last (typedPositions s)" "typedEnd X = last (typedPositions s)"
    and cX: "counterInv X"
  shows "engineInv (setMark X (cursor X) UNTOUCHED False)"
proof -
  define l where "l = last (typedPositions s)"
  let ?s = "setMark X (cursor X) UNTOUCHED False"
  have p: "posInv s" and mk: "markInv s" and t: "typedInv s"
    using inv by (simp_all add: coreInv_def)
  have tp: "typedPositions s = butlast (typedPositions s) @ [l]"
    using ne by (simp add: l_def)
  have lin: "l \<in> set (typedPositions s)" using ne by (simp add: l_def)
  then have l: "0 \<le> l" "l < typedEnd s" "\<not> covered (skipRanges s) l"
    using p by (auto simp: posInv_def)
  then have llen: "l < int (length (text' s))" using p by (simp add: posInv_def)
  have srt: "sorted_wrt (<) (butlast (typedPositions s))"
    and below: "\<forall>q\<in>set (butlast (typedPositions s)). q < l"
    using p tp sorted_wrt_append[of "(<)" "butlast (typedPositions s)" "[l]"]
    by (auto simp: posInv_def)
  have mkX: "markInv X" using mk markInv_cong[of X s] X by simp
  have cur: "cursor X = l" using X by (simp add: l_def)
  have "posInv ?s"
    unfolding posInv_def
    using p l llen srt below X cur by (auto simp: posInv_def dest: in_set_butlastD)
  moreover have "markInv ?s"
    using mkX l(1) llen X cur by (intro setMark_markInv) simp_all
  moreover have "typedInv ?s"
  proof -
    have "userTyped ?s i \<longleftrightarrow> (if i = l then False else userTyped s i)" for i
    proof -
      have "userTyped X i = userTyped s i" by (rule userTyped_cong) (simp_all add: X)
      moreover have "0 \<le> cursor X" "cursor X < int (length (text' X))"
        using l(1) llen X cur by simp_all
      ultimately show ?thesis
        using setMark_userTyped[OF mkX, of "cursor X" UNTOUCHED False i] cur by auto
    qed
    then have "{i. userTyped ?s i} = {i. userTyped s i} - {l}" by auto
    moreover have "set (butlast (typedPositions s)) = set (typedPositions s) - {l}"
    proof -
      have "l \<notin> set (butlast (typedPositions s))" using below by auto
      moreover have "set (typedPositions s) = set (butlast (typedPositions s) @ [l])"
        by (rule arg_cong[OF tp])
      ultimately show ?thesis by auto
    qed
    ultimately show ?thesis using t X by (simp add: typedInv_def)
  qed
  moreover have "counterInv ?s" using cX by (simp add: counterInv_def)
  moreover have "\<not> covered (skipRanges ?s) (cursor ?s)" using l(3) X cur by simp
  ultimately show ?thesis by (simp add: engineInv_def coreInv_def)
qed

lemma handleBackspace_engineInv:
  assumes inv: "engineInv s"
  shows "engineInv (handleBackspace s)"
proof -
  define s1 where "s1 = s\<lparr>typedKeystrokes := typedKeystrokes s + 1,
                  backspaces := backspaces s + 1, locked := False\<rparr>"
  define s2 where "s2 = (if typedPositions s1 = [] then s1
                else
                  let lst = last (typedPositions s1);
                      s = s1\<lparr>typedPositions := butlast (typedPositions s1)\<rparr>;
                      s = s\<lparr>cursor := lst\<rparr>;
                      s = s\<lparr>typedEnd := cursor s\<rparr>
                  in setMark s (cursor s) UNTOUCHED False)"
  have core: "coreInv s" and nc: "\<not> covered (skipRanges s) (cursor s)"
    using inv by (simp_all add: engineInv_def)
  have cnt1: "counterInv s1" using core by (simp add: coreInv_def counterInv_def s1_def)
  have core1: "coreInv s1"
  proof -
    have "posInv s1 = posInv s" by (rule posInv_cong) (simp_all add: s1_def)
    moreover have "markInv s1 = markInv s" by (rule markInv_cong) (simp_all add: s1_def)
    moreover have "typedInv s1 = typedInv s" by (rule typedInv_cong) (simp_all add: s1_def)
    ultimately show ?thesis using core cnt1 by (simp add: coreInv_def)
  qed
  have inv1: "engineInv s1" using core1 nc by (simp add: engineInv_def s1_def)
  have inv2: "engineInv s2"
  proof (cases "typedPositions s1 = []")
    case True
    then show ?thesis using inv1 by (simp add: s2_def)
  next
    case False
    let ?X = "s1\<lparr>typedPositions := butlast (typedPositions s1), cursor := last (typedPositions s1),
                  typedEnd := last (typedPositions s1)\<rparr>"
    have "engineInv (setMark ?X (cursor ?X) UNTOUCHED False)"
      using core1 False by (rule coreInv_backspace_pop) (use cnt1 in \<open>simp_all add: counterInv_def\<close>)
    then show ?thesis using False by (simp add: s2_def Let_def)
  qed
  let ?r = "s2\<lparr>errorActive := False, firstErrorIndex := -1, firstErrorTypedProgress := -1\<rparr>"
  have "engineInv ?r"
  proof -
    have "posInv ?r = posInv s2" by (rule posInv_cong) simp_all
    moreover have "markInv ?r = markInv s2" by (rule markInv_cong) simp_all
    moreover have "typedInv ?r = typedInv s2" by (rule typedInv_cong) simp_all
    moreover have "counterInv ?r = counterInv s2" by (rule counterInv_cong) simp_all
    ultimately show ?thesis using inv2 by (simp add: engineInv_def coreInv_def)
  qed
  then have "engineInv (if errorActive s2 \<and> cursor s2 \<le> firstErrorIndex s2 then ?r else s2)"
    using inv2 by simp
  then show ?thesis
    unfolding handleBackspace_def Let_def s1_def[symmetric] s2_def[unfolded Let_def, symmetric] .
qed

subsection \<open>A new engine satisfies the invariant\<close>

lemma createTypingEngine_engineInv:
  "engineInv (createTypingEngine txt slack autoSkip ranges0 allow)"
proof -
  let ?s = "createTypingEngine txt slack autoSkip ranges0 allow"
  let ?n = "int (length txt)"
  have good: "goodRanges ?n (mergeRanges ranges0 ?n)" by (rule mergeRanges_good) simp
  note props = skipForward_loop_props[OF good, of 0]
  have "posInv ?s"
    using good props by (simp add: posInv_def createTypingEngine_fields)
  moreover have "markInv ?s"
    by (simp add: markInv_def createTypingEngine_fields)
  moreover have "typedInv ?s"
    by (auto simp: typedInv_def userTyped_def createTypingEngine_fields)
  moreover have "counterInv ?s"
    by (simp add: counterInv_def createTypingEngine_fields)
  moreover have "\<not> covered (skipRanges ?s) (cursor ?s)"
    using props by (simp add: createTypingEngine_fields)
  ultimately show ?thesis by (simp add: engineInv_def coreInv_def)
qed

lemma reachable_engineInv: "reachable s \<Longrightarrow> engineInv s"
  by (induction rule: reachable.induct)
     (simp_all add: createTypingEngine_engineInv handleKey_engineInv handleBackspace_engineInv)

text \<open>
  Claim C1. In every state reachable from a new engine (any text, slack, flags and skip
  ranges) by \<open>handleKey\<close> and \<open>handleBackspace\<close>: \<open>0 \<le> typedEnd \<le> cursor \<le> len(text)\<close>; the
  cursor is inside no stored skip range (not even at its start); \<open>correctChars\<close> is the
  number of indices whose \<open>countedCorrect\<close> flag is set; \<open>typedPositions\<close> has as many
  entries as there are user-typed positions outstanding (the auto-skipped ones are not
  among them); and the six counters are not negative.
\<close>

theorem reachable_invariants:
  assumes "reachable s"
  shows "0 \<le> typedEnd s \<and> typedEnd s \<le> cursor s \<and> cursor s \<le> int (length (text' s))
     \<and> (\<forall>r\<in>set (skipRanges s). \<not> (start r \<le> cursor s \<and> cursor s < end' r))
     \<and> length (countedCorrect s) = length (text' s)
     \<and> correctChars s = int (card {i. i < length (countedCorrect s) \<and> countedCorrect s ! i})
     \<and> length (typedPositions s) = card {i. userTyped s i}
     \<and> 0 \<le> typeableChars s \<and> 0 \<le> typedKeystrokes s \<and> 0 \<le> incorrect s
     \<and> 0 \<le> collateral s \<and> 0 \<le> backspaces s \<and> 0 \<le> correctChars s"
proof -
  have inv: "engineInv s" using assms by (rule reachable_engineInv)
  then have p: "posInv s" and mk: "markInv s" and t: "typedInv s" and c: "counterInv s"
    and nc: "\<not> covered (skipRanges s) (cursor s)"
    by (simp_all add: engineInv_def coreInv_def)
  have cc: "correctChars s = int (card {i. i < length (countedCorrect s) \<and> countedCorrect s ! i})"
    using mk by (simp add: markInv_def length_filter_conv_card)
  have "distinct (typedPositions s)"
    using p by (simp add: posInv_def strict_sorted_iff)
  then have "length (typedPositions s) = card (set (typedPositions s))"
    by (simp add: distinct_card)
  then have tp: "length (typedPositions s) = card {i. userTyped s i}"
    using t by (simp add: typedInv_def)
  have "\<forall>r\<in>set (skipRanges s). \<not> (start r \<le> cursor s \<and> cursor s < end' r)"
    using nc by (auto simp: covered_def inRange_def)
  then show ?thesis
    using p mk c cc tp by (simp add: posInv_def markInv_def counterInv_def)
qed


theorem reachable_invariants_witness:
  "reachable (handleBackspace (handleKey (handleKey
       (createTypingEngine (js ''a/*c*/b'') (Fin 1) True [\<lparr>start = Fin 1, end' = Fin 6\<rparr>] False)
       (js ''a'')) (js ''x'')))
   \<and> cursor (handleBackspace (handleKey (handleKey
       (createTypingEngine (js ''a/*c*/b'') (Fin 1) True [\<lparr>start = Fin 1, end' = Fin 6\<rparr>] False)
       (js ''a'')) (js ''x''))) = 6
   \<and> typedEnd (handleBackspace (handleKey (handleKey
       (createTypingEngine (js ''a/*c*/b'') (Fin 1) True [\<lparr>start = Fin 1, end' = Fin 6\<rparr>] False)
       (js ''a'')) (js ''x''))) = 6
   \<and> card {i. userTyped (handleBackspace (handleKey (handleKey
       (createTypingEngine (js ''a/*c*/b'') (Fin 1) True [\<lparr>start = Fin 1, end' = Fin 6\<rparr>] False)
       (js ''a'')) (js ''x''))) i} = 1
   \<and> card {i. i < 7 \<and> countedCorrect (handleBackspace (handleKey (handleKey
       (createTypingEngine (js ''a/*c*/b'') (Fin 1) True [\<lparr>start = Fin 1, end' = Fin 6\<rparr>] False)
       (js ''a'')) (js ''x''))) ! i} = 1"
proof -
  define s where "s = handleBackspace (handleKey (handleKey
       (createTypingEngine (js ''a/*c*/b'') (Fin 1) True [\<lparr>start = Fin 1, end' = Fin 6\<rparr>] False)
       (js ''a'')) (js ''x''))"
  have r: "reachable s" unfolding s_def by (intro reachable.intros)
  have v: "cursor s = 6" "typedEnd s = 6" "typedPositions s = [0]" "correctChars s = 1"
    "length (countedCorrect s) = 7"
    unfolding s_def by code_simp+
  note t = reachable_invariants[OF r]
  from t have "length (typedPositions s) = card {i. userTyped s i}" by blast
  then have a: "card {i. userTyped s i} = 1" using v by simp
  from t have "correctChars s = int (card {i. i < length (countedCorrect s) \<and> countedCorrect s ! i})"
    by blast
  then have b: "card {i. i < 7 \<and> countedCorrect s ! i} = 1" using v by simp
  show ?thesis using r v a b unfolding s_def by simp
qed


section \<open>Enter on blank lines\<close>

lemma newlineRunEnd_step:
  "0 \<le> c \<Longrightarrow> charAt txt c = Some NL \<Longrightarrow> newlineRunEnd txt c = newlineRunEnd txt (c + 1)"
proof -
  assume c: "0 \<le> c" and nl: "charAt txt c = Some NL"
  then have lt: "nat c < length txt" and at: "txt ! nat c = NL"
    by (auto simp: charAt_def split: if_splits)
  have "drop (nat c) txt = NL # drop (Suc (nat c)) txt"
    using Cons_nth_drop_Suc[OF lt] at by simp
  moreover have "nat (c + 1) = Suc (nat c)" using c by simp
  ultimately show ?thesis by (simp add: newlineRunEnd_def)
qed

lemma newlineRunEnd_stop:
  "0 \<le> c \<Longrightarrow> charAt txt c \<noteq> Some NL \<Longrightarrow> newlineRunEnd txt c = c"
proof -
  assume c: "0 \<le> c" and nl: "charAt txt c \<noteq> Some NL"
  show ?thesis
  proof (cases "nat c < length txt")
    case True
    then have "c < int (length txt)" using c by linarith
    then have "txt ! nat c \<noteq> NL" using nl c by (auto simp: charAt_def)
    moreover have "drop (nat c) txt = txt ! nat c # drop (Suc (nat c)) txt"
      using Cons_nth_drop_Suc[OF True] by simp
    ultimately show ?thesis by (simp add: newlineRunEnd_def)
  next
    case False
    then show ?thesis by (simp add: newlineRunEnd_def)
  qed
qed

lemma autoSkipNewlines_cursor:
  "0 \<le> cursor s \<Longrightarrow> cursor (autoSkipNewlines s) = newlineRunEnd (text' s) (cursor s)"
proof (induction s rule: autoSkipNewlines.induct)
  case (1 s)
  show ?case
  proof (cases "cursor s < int (length (text' s)) \<and> charAt (text' s) (cursor s) = Some NL")
    case True
    have "autoSkipNewlines s =
        autoSkipNewlines ((setMark s (cursor s) CORRECT False)\<lparr>cursor := cursor s + 1\<rparr>)"
      using True by (subst autoSkipNewlines.simps) (simp only: simp_thms if_True)
    moreover have "cursor (autoSkipNewlines ((setMark s (cursor s) CORRECT False)\<lparr>cursor := cursor s + 1\<rparr>))
        = newlineRunEnd (text' s) (cursor s + 1)"
      using "1.IH"[OF True] "1.prems" by simp
    ultimately show ?thesis using newlineRunEnd_step[of "cursor s" "text' s"] True "1.prems" by simp
  next
    case False
    have "autoSkipNewlines s = s"
      using False by (subst autoSkipNewlines.simps) (simp only: simp_thms if_False)
    moreover have "charAt (text' s) (cursor s) \<noteq> Some NL"
      using False by (auto simp: charAt_def)
    ultimately show ?thesis using newlineRunEnd_stop[of "cursor s" "text' s"] "1.prems" by simp
  qed
qed

lemma autoSkipNewlines_fields:
  "text' (autoSkipNewlines s) = text' s \<and> skipRanges (autoSkipNewlines s) = skipRanges s
   \<and> typedPositions (autoSkipNewlines s) = typedPositions s
   \<and> typedEnd (autoSkipNewlines s) = typedEnd s"
proof (induction s rule: autoSkipNewlines.induct)
  case (1 s)
  show ?case
  proof (cases "cursor s < int (length (text' s)) \<and> charAt (text' s) (cursor s) = Some NL")
    case True
    have "autoSkipNewlines s =
        autoSkipNewlines ((setMark s (cursor s) CORRECT False)\<lparr>cursor := cursor s + 1\<rparr>)"
      using True by (subst autoSkipNewlines.simps) (simp only: simp_thms if_True)
    then show ?thesis using "1.IH"[OF True] by simp
  next
    case False
    have "autoSkipNewlines s = s"
      using False by (subst autoSkipNewlines.simps) (simp only: simp_thms if_False)
    then show ?thesis by simp
  qed
qed

lemma engineInv_counted_key:
  assumes "engineInv s"
  shows "engineInv (s\<lparr>typedKeystrokes := typedKeystrokes s + 1\<rparr>)"
proof -
  let ?s = "s\<lparr>typedKeystrokes := typedKeystrokes s + 1\<rparr>"
  have "posInv ?s = posInv s" by (rule posInv_cong) simp_all
  moreover have "markInv ?s = markInv s" by (rule markInv_cong) simp_all
  moreover have "typedInv ?s = typedInv s" by (rule typedInv_cong) simp_all
  moreover have "counterInv ?s" using assms by (simp add: engineInv_def coreInv_def counterInv_def)
  ultimately show ?thesis using assms by (simp add: engineInv_def coreInv_def)
qed

text \<open>
  Claim C2 says that, with \<open>autoSkipBlankLines\<close>, an Enter on the expected newline moves
  \<open>typedEnd\<close> just past the newline the user typed and not past the newlines consumed after
  it: \<open>typedEnd = 1\<close> on \<open>"\n\nP"\<close>. The code assigns \<open>typedEnd = cursor\<close> a second time
  after the walk over the following newlines, so \<open>typedEnd\<close> is 2 there.
\<close>

theorem enter_typedEnd_counterexample:
  "cursor (handleKey (createTypingEngine (js ''\<newline>\<newline>P'') (Fin 3) True [] False) (js ''\<newline>'')) = 2
   \<and> typedEnd (handleKey (createTypingEngine (js ''\<newline>\<newline>P'') (Fin 3) True [] False) (js ''\<newline>'')) = 2
   \<and> typedEnd (handleKey (createTypingEngine (js ''\<newline>\<newline>P'') (Fin 3) True [] False) (js ''\<newline>'')) \<noteq> 1"
  by code_simp

text \<open>
  Claim C2, amended. In a reachable state that is not locked and has no active error, with
  \<open>autoSkipBlankLines\<close> set and a newline expected at the cursor, a key that is a newline (or
  a space, when \<open>allowWhitespaceAdvanceToNewline\<close> is set) leaves \<open>typedEnd\<close> just past the
  whole run of newlines that starts at the cursor: the typed one and the consumed ones.
  So \<open>typedEnd\<close> is \<open>cursor + 1\<close> only when no newline follows the typed one. The cursor
  goes on from there over the skip ranges, which \<open>typedEnd\<close> does not follow. One position
  is pushed on \<open>typedPositions\<close>. On \<open>"\n\nP"\<close> one Enter gives \<open>cursor = 2\<close> and
  \<open>typedEnd = 2\<close>.
\<close>

theorem enter_typedEnd_after_blank_lines:
  assumes r: "reachable s" and nl: "\<not> locked s" and ne: "\<not> errorActive s"
    and auto: "autoSkipBlankLines s"
    and ex: "charAt (text' s) (cursor s) = Some NL"
    and ch: "ch \<noteq> []" "hd ch = NL \<or> (allowWhitespaceAdvanceToNewline s \<and> hd ch = SPACE)"
  shows "typedEnd (handleKey s ch) = newlineRunEnd (text' s) (cursor s)
       \<and> cursor s + 1 \<le> typedEnd (handleKey s ch)
       \<and> (typedEnd (handleKey s ch) = cursor s + 1 \<longleftrightarrow> charAt (text' s) (cursor s + 1) \<noteq> Some NL)
       \<and> cursor (handleKey s ch) =
           skipForward_loop (skipRanges s) (int (length (text' s))) (newlineRunEnd (text' s) (cursor s))
       \<and> typedEnd (handleKey s ch) \<le> cursor (handleKey s ch)
       \<and> typedPositions (handleKey s ch) = typedPositions s @ [cursor s]"
proof -
  have inv: "engineInv s" using r by (rule reachable_engineInv)
  have c0: "0 \<le> cursor s" using inv by (simp add: engineInv_def coreInv_cursor_nonneg)
  have lt: "cursor s < int (length (text' s))" using ex by (auto simp: charAt_def split: if_splits)
  have id1: "skipForwardIfNeeded (s\<lparr>typedKeystrokes := typedKeystrokes s + 1\<rparr>)
             = s\<lparr>typedKeystrokes := typedKeystrokes s + 1\<rparr>"
    using inv by (intro skipForwardIfNeeded_id engineInv_counted_key)
  have input: "(if allowWhitespaceAdvanceToNewline s \<and> hd ch = SPACE then NL else hd ch) = NL"
    using ch(2) by auto
  have te: "typedEnd (handleKey s ch) = newlineRunEnd (text' s) (cursor s + 1)"
    unfolding handleKey_def Let_def
    using ch(1) nl ne auto ex lt c0 input
    by (simp add: id1 autoSkipNewlines_cursor autoSkipNewlines_fields)
  have cu: "cursor (handleKey s ch) =
      skipForward_loop (skipRanges s) (int (length (text' s))) (newlineRunEnd (text' s) (cursor s + 1))"
    unfolding handleKey_def Let_def
    using ch(1) nl ne auto ex lt c0 input
    by (simp add: id1 autoSkipNewlines_cursor autoSkipNewlines_fields skipForwardIfNeeded_cursor)
  have tp: "typedPositions (handleKey s ch) = typedPositions s @ [cursor s]"
    unfolding handleKey_def Let_def
    using ch(1) nl ne auto ex lt c0 input
    by (simp add: id1 autoSkipNewlines_fields)
  have step: "newlineRunEnd (text' s) (cursor s) = newlineRunEnd (text' s) (cursor s + 1)"
    using c0 ex by (rule newlineRunEnd_step)
  have ge: "cursor s + 1 \<le> newlineRunEnd (text' s) (cursor s + 1)"
    by (simp add: newlineRunEnd_def)
  have eq1: "newlineRunEnd (text' s) (cursor s + 1) = cursor s + 1 \<longleftrightarrow> charAt (text' s) (cursor s + 1) \<noteq> Some NL"
  proof (cases "charAt (text' s) (cursor s + 1) = Some NL")
    case True
    have "newlineRunEnd (text' s) (cursor s + 1) = newlineRunEnd (text' s) (cursor s + 1 + 1)"
      using c0 True by (intro newlineRunEnd_step) simp_all
    moreover have "cursor s + 1 + 1 \<le> newlineRunEnd (text' s) (cursor s + 1 + 1)"
      by (simp add: newlineRunEnd_def)
    ultimately show ?thesis using True by simp
  next
    case False
    then show ?thesis using newlineRunEnd_stop[of "cursor s + 1" "text' s"] c0 by simp
  qed
  have good: "goodRanges (int (length (text' s))) (skipRanges s)"
    using inv by (simp add: engineInv_def coreInv_def posInv_def)
  have le: "newlineRunEnd (text' s) (cursor s + 1) \<le>
      skipForward_loop (skipRanges s) (int (length (text' s))) (newlineRunEnd (text' s) (cursor s + 1))"
    using skipForward_loop_props[OF good] by blast
  show ?thesis using te cu tp step ge eq1 le by simp
qed


theorem enter_typedEnd_after_blank_lines_witness:
  "reachable (createTypingEngine (js ''\<newline>\<newline>P'') (Fin 3) True [] False)
   \<and> newlineRunEnd (js ''\<newline>\<newline>P'') 0 = 2
   \<and> typedEnd (handleKey (createTypingEngine (js ''\<newline>\<newline>P'') (Fin 3) True [] False) (js ''\<newline>'')) = 2
   \<and> typedPositions (handleKey (createTypingEngine (js ''\<newline>\<newline>P'') (Fin 3) True [] False) (js ''\<newline>'')) = [0]"
proof -
  define s where "s = createTypingEngine (js ''\<newline>\<newline>P'') (Fin 3) True [] False"
  have r: "reachable s" unfolding s_def by (rule reachable.created)
  have h: "\<not> locked s" "\<not> errorActive s" "autoSkipBlankLines s"
    "charAt (text' s) (cursor s) = Some NL" "js ''\<newline>'' \<noteq> []"
    "hd (js ''\<newline>'') = NL \<or> (allowWhitespaceAdvanceToNewline s \<and> hd (js ''\<newline>'') = SPACE)"
    unfolding s_def by code_simp+
  have v: "text' s = js ''\<newline>\<newline>P''" "cursor s = 0" "typedPositions s = []"
    unfolding s_def by code_simp+
  have n: "newlineRunEnd (js ''\<newline>\<newline>P'') 0 = 2" by code_simp
  note t = enter_typedEnd_after_blank_lines[OF r h]
  from t have "typedEnd (handleKey s (js ''\<newline>'')) = newlineRunEnd (text' s) (cursor s)"
    and "typedPositions (handleKey s (js ''\<newline>'')) = typedPositions s @ [cursor s]"
    by blast+
  then show ?thesis using r n v unfolding s_def by simp
qed


section \<open>A key and a backspace\<close>

lemma autoSkipNewlines_other_fields:
  "errorActive (autoSkipNewlines s) = errorActive s \<and> locked (autoSkipNewlines s) = locked s
   \<and> typedKeystrokes (autoSkipNewlines s) = typedKeystrokes s
   \<and> backspaces (autoSkipNewlines s) = backspaces s
   \<and> firstErrorIndex (autoSkipNewlines s) = firstErrorIndex s
   \<and> firstErrorTypedProgress (autoSkipNewlines s) = firstErrorTypedProgress s
   \<and> autoSkipBlankLines (autoSkipNewlines s) = autoSkipBlankLines s
   \<and> allowWhitespaceAdvanceToNewline (autoSkipNewlines s) = allowWhitespaceAdvanceToNewline s"
proof (induction s rule: autoSkipNewlines.induct)
  case (1 s)
  show ?case
  proof (cases "cursor s < int (length (text' s)) \<and> charAt (text' s) (cursor s) = Some NL")
    case True
    have "autoSkipNewlines s =
        autoSkipNewlines ((setMark s (cursor s) CORRECT False)\<lparr>cursor := cursor s + 1\<rparr>)"
      using True by (subst autoSkipNewlines.simps) (simp only: simp_thms if_True)
    then show ?thesis using "1.IH"[OF True] by simp
  next
    case False
    have "autoSkipNewlines s = s"
      using False by (subst autoSkipNewlines.simps) (simp only: simp_thms if_False)
    then show ?thesis by simp
  qed
qed

lemma autoSkipNewlines_keeps:
  "coreInv s \<Longrightarrow>
   correctChars (autoSkipNewlines s) = correctChars s
   \<and> countedCorrect (autoSkipNewlines s) = countedCorrect s
   \<and> length (marks (autoSkipNewlines s)) = length (marks s)
   \<and> (\<forall>i. int i < cursor s \<longrightarrow> marks (autoSkipNewlines s) ! i = marks s ! i)"
proof (induction s rule: autoSkipNewlines.induct)
  case (1 s)
  show ?case
  proof (cases "cursor s < int (length (text' s)) \<and> charAt (text' s) (cursor s) = Some NL")
    case True
    let ?w = "(setMark s (cursor s) CORRECT False)\<lparr>cursor := cursor s + 1\<rparr>"
    have eq: "autoSkipNewlines s = autoSkipNewlines ?w"
      using True by (subst autoSkipNewlines.simps) (simp only: simp_thms if_True)
    have lt: "cursor s < int (length (text' s))" using True by simp
    have inv': "coreInv ?w" using "1.prems" lt by (rule coreInv_walk_step)
    have c0: "0 \<le> cursor s" using "1.prems" by (rule coreInv_cursor_nonneg)
    have mk: "markInv s" using "1.prems" by (simp add: coreInv_def)
    then have len: "length (marks s) = length (text' s)" "length (countedCorrect s) = length (text' s)"
      by (simp_all add: markInv_def)
    have "\<not> userTyped s (cursor s)"
      using "1.prems" by (intro coreInv_not_typed_beyond) (simp_all add: coreInv_def posInv_def)
    then have nc: "\<not> countedCorrect s ! nat (cursor s)"
      using c0 lt len by (auto simp: userTyped_def)
    note m = setMark_marks[of "cursor s" s CORRECT False]
    have w1: "marks ?w = (marks s)[nat (cursor s) := CORRECT]"
      and w2: "countedCorrect ?w = (countedCorrect s)[nat (cursor s) := False]"
      and w3: "correctChars ?w = correctChars s"
      using m c0 lt len nc by simp_all
    have w2': "countedCorrect ?w = countedCorrect s"
      unfolding w2 using nc by (metis list_update_id)
    note IH = "1.IH"[OF True inv']
    have "\<forall>i. int i < cursor s \<longrightarrow> marks (autoSkipNewlines ?w) ! i = marks s ! i"
    proof (intro allI impI)
      fix i assume i: "int i < cursor s"
      then have "marks (autoSkipNewlines ?w) ! i = marks ?w ! i" using IH by simp
      also have "\<dots> = marks s ! i" unfolding w1 using i c0 by simp
      finally show "marks (autoSkipNewlines ?w) ! i = marks s ! i" .
    qed
    then show ?thesis unfolding eq using IH w1 w2' w3 by simp
  next
    case False
    have "autoSkipNewlines s = s"
      using False by (subst autoSkipNewlines.simps) (simp only: simp_thms if_False)
    then show ?thesis by simp
  qed
qed

text \<open>What a key that matches the expected character does to a state of the engine.\<close>

lemma handleKey_expected:
  assumes inv: "engineInv s" and ne: "\<not> errorActive s" and nl: "\<not> locked s"
    and lt: "cursor s < int (length (text' s))"
  defines "k \<equiv> handleKey s [text' s ! nat (cursor s)]"
  shows "engineInv k" "typedPositions k = typedPositions s @ [cursor s]"
    "\<not> errorActive k" "typedKeystrokes k = typedKeystrokes s + 1" "backspaces k = backspaces s"
    "text' k = text' s" "autoSkipBlankLines k = autoSkipBlankLines s"
    "correctChars k = correctChars s + 1"
    "countedCorrect k = (countedCorrect s)[nat (cursor s) := True]"
    "length (marks k) = length (marks s)" "marks k ! nat (cursor s) = CORRECT"
    "\<not> (autoSkipBlankLines s \<and> text' s ! nat (cursor s) = NL) \<Longrightarrow>
       marks k = (marks s)[nat (cursor s) := CORRECT]"
proof -
  define e where "e = text' s ! nat (cursor s)"
  define s1 where "s1 = s\<lparr>typedKeystrokes := typedKeystrokes s + 1\<rparr>"
  define Y where "Y = (setMark s1 (cursor s1) CORRECT True)
      \<lparr>typedPositions := typedPositions s1 @ [cursor s1], cursor := cursor s1 + 1,
        typedEnd := cursor s1 + 1\<rparr>"
  show "engineInv k" unfolding k_def using inv by (rule handleKey_engineInv)
  have inv1: "engineInv s1" unfolding s1_def using inv by (rule engineInv_counted_key)
  then have core1: "coreInv s1" and nc1: "\<not> covered (skipRanges s1) (cursor s1)"
    by (simp_all add: engineInv_def)
  have id1: "skipForwardIfNeeded s1 = s1" using inv1 by (rule skipForwardIfNeeded_id)
  have c0: "0 \<le> cursor s" using inv by (simp add: engineInv_def coreInv_cursor_nonneg)
  have ex: "charAt (text' s) (cursor s) = Some e" using c0 lt by (simp add: charAt_def e_def)
  have input: "(if allowWhitespaceAdvanceToNewline s \<and> e = SPACE \<and> e = NL then NL else e) = e"
    by auto
  have mk: "markInv s" using inv by (simp add: engineInv_def coreInv_def)
  then have len: "length (marks s) = length (text' s)" "length (countedCorrect s) = length (text' s)"
    by (simp_all add: markInv_def)
  have "\<not> userTyped s (cursor s)"
    using inv by (intro coreInv_not_typed_beyond) (simp_all add: engineInv_def coreInv_def posInv_def)
  then have ncc: "\<not> countedCorrect s ! nat (cursor s)"
    using c0 lt len by (auto simp: userTyped_def)
  note m = setMark_marks[of "cursor s1" s1 CORRECT True]
  have y1: "marks Y = (marks s)[nat (cursor s) := CORRECT]"
    and y2: "countedCorrect Y = (countedCorrect s)[nat (cursor s) := True]"
    and y3: "correctChars Y = correctChars s + 1"
    using m c0 lt len ncc by (simp_all add: Y_def s1_def)
  have coreY: "coreInv Y"
    using core1 nc1 by (rule coreInv_typed[where m = CORRECT and cc = True])
      (use lt core1 in \<open>simp_all add: Y_def s1_def coreInv_def counterInv_def\<close>)
  have cases: "k = skipForwardIfNeeded ((autoSkipNewlines Y)\<lparr>typedEnd := cursor (autoSkipNewlines Y)\<rparr>)
      \<or> (\<not> (autoSkipBlankLines s \<and> e = NL) \<and> k = skipForwardIfNeeded Y)"
  proof (cases "e = NL")
    case True
    show ?thesis
    proof (cases "autoSkipBlankLines s")
      case auto: True
      have "k = skipForwardIfNeeded ((autoSkipNewlines Y)\<lparr>typedEnd := cursor (autoSkipNewlines Y)\<rparr>)"
        unfolding k_def handleKey_def Let_def e_def[symmetric] s1_def[symmetric] id1
        using ne nl lt ex True auto by (simp add: s1_def Y_def)
      then show ?thesis by simp
    next
      case noauto: False
      have "k = skipForwardIfNeeded Y"
        unfolding k_def handleKey_def Let_def e_def[symmetric] s1_def[symmetric] id1
        using ne nl lt ex True noauto by (simp add: s1_def Y_def)
      then show ?thesis using noauto by simp
    qed
  next
    case False
    have "k = skipForwardIfNeeded Y"
      unfolding k_def handleKey_def Let_def e_def[symmetric] s1_def[symmetric] id1
      using ne nl lt ex False by (simp add: s1_def Y_def)
    then show ?thesis using False by simp
  qed
  note keep = autoSkipNewlines_keeps[OF coreY]
  have cY: "cursor Y = cursor s + 1" by (simp add: Y_def s1_def)
  have both: "correctChars k = correctChars s + 1
     \<and> countedCorrect k = (countedCorrect s)[nat (cursor s) := True]
     \<and> length (marks k) = length (marks s) \<and> marks k ! nat (cursor s) = CORRECT"
    using cases
  proof
    assume "k = skipForwardIfNeeded ((autoSkipNewlines Y)\<lparr>typedEnd := cursor (autoSkipNewlines Y)\<rparr>)"
    then have f: "correctChars k = correctChars (autoSkipNewlines Y)"
      "countedCorrect k = countedCorrect (autoSkipNewlines Y)"
      "marks k = marks (autoSkipNewlines Y)"
      by simp_all
    have "marks (autoSkipNewlines Y) ! nat (cursor s) = marks Y ! nat (cursor s)"
      using keep cY c0 by simp
    then show ?thesis using f keep y1 y2 y3 c0 lt len by simp
  next
    assume "\<not> (autoSkipBlankLines s \<and> e = NL) \<and> k = skipForwardIfNeeded Y"
    then show ?thesis using y1 y2 y3 c0 lt len by simp
  qed
  then show "correctChars k = correctChars s + 1"
    "countedCorrect k = (countedCorrect s)[nat (cursor s) := True]"
    "length (marks k) = length (marks s)" "marks k ! nat (cursor s) = CORRECT"
    by simp_all
  have simple: "typedPositions k = typedPositions s @ [cursor s]
     \<and> \<not> errorActive k \<and> typedKeystrokes k = typedKeystrokes s + 1 \<and> backspaces k = backspaces s
     \<and> text' k = text' s \<and> autoSkipBlankLines k = autoSkipBlankLines s"
    using cases ne
    by (auto simp: Y_def s1_def autoSkipNewlines_fields autoSkipNewlines_other_fields)
  then show "typedPositions k = typedPositions s @ [cursor s]"
    "\<not> errorActive k" "typedKeystrokes k = typedKeystrokes s + 1" "backspaces k = backspaces s"
    "text' k = text' s" "autoSkipBlankLines k = autoSkipBlankLines s"
    by simp_all
  show "marks k = (marks s)[nat (cursor s) := CORRECT]"
    if "\<not> (autoSkipBlankLines s \<and> text' s ! nat (cursor s) = NL)"
  proof -
    have "k = skipForwardIfNeeded Y"
    proof (cases "e = NL")
      case True
      then have noauto: "\<not> autoSkipBlankLines s" using that by (simp add: e_def)
      show ?thesis
        unfolding k_def handleKey_def Let_def e_def[symmetric] s1_def[symmetric] id1
        using ne nl lt ex True noauto by (simp add: s1_def Y_def)
    next
      case False
      show ?thesis
        unfolding k_def handleKey_def Let_def e_def[symmetric] s1_def[symmetric] id1
        using ne nl lt ex False by (simp add: s1_def Y_def)
    qed
    then show ?thesis using y1 by simp
  qed
qed


text \<open>What a backspace does to a state with a typed position and no active error.\<close>

lemma handleBackspace_pop:
  assumes inv: "engineInv k" and tp: "typedPositions k = tps @ [c]" and ne: "\<not> errorActive k"
  shows "cursor (handleBackspace k) = c" "typedEnd (handleBackspace k) = c"
    "typedPositions (handleBackspace k) = tps"
    "marks (handleBackspace k) = (marks k)[nat c := UNTOUCHED]"
    "correctChars (handleBackspace k) =
       correctChars k - (if marks k ! nat c = CORRECT \<and> countedCorrect k ! nat c then 1 else 0)"
    "typedKeystrokes (handleBackspace k) = typedKeystrokes k + 1"
    "backspaces (handleBackspace k) = backspaces k + 1"
    "\<not> locked (handleBackspace k)" "\<not> errorActive (handleBackspace k)"
    "text' (handleBackspace k) = text' k"
    "autoSkipBlankLines (handleBackspace k) = autoSkipBlankLines k"
proof -
  define X where "X = k\<lparr>typedKeystrokes := typedKeystrokes k + 1, backspaces := backspaces k + 1,
      locked := False, typedPositions := tps, cursor := c, typedEnd := c\<rparr>"
  have p: "posInv k" and mk: "markInv k" using inv by (simp_all add: engineInv_def coreInv_def)
  have "c \<in> set (typedPositions k)" using tp by simp
  then have c: "0 \<le> c" "c < int (length (text' k))" using p by (auto simp: posInv_def)
  have len: "length (marks k) = length (text' k)" "length (countedCorrect k) = length (text' k)"
    using mk by (simp_all add: markInv_def)
  have hb: "handleBackspace k = setMark X c UNTOUCHED False"
    unfolding handleBackspace_def Let_def using tp ne by (simp add: X_def)
  note m = setMark_marks[of c X UNTOUCHED False]
  have "marks (setMark X c UNTOUCHED False) = (marks k)[nat c := UNTOUCHED]"
    and "correctChars (setMark X c UNTOUCHED False) =
       correctChars k - (if marks k ! nat c = CORRECT \<and> countedCorrect k ! nat c then 1 else 0)"
    using m c len by (simp_all add: X_def)
  then show "marks (handleBackspace k) = (marks k)[nat c := UNTOUCHED]"
    "correctChars (handleBackspace k) =
       correctChars k - (if marks k ! nat c = CORRECT \<and> countedCorrect k ! nat c then 1 else 0)"
    unfolding hb by simp_all
  show "cursor (handleBackspace k) = c" "typedEnd (handleBackspace k) = c"
    "typedPositions (handleBackspace k) = tps"
    "typedKeystrokes (handleBackspace k) = typedKeystrokes k + 1"
    "backspaces (handleBackspace k) = backspaces k + 1"
    "\<not> locked (handleBackspace k)" "\<not> errorActive (handleBackspace k)"
    "text' (handleBackspace k) = text' k"
    "autoSkipBlankLines (handleBackspace k) = autoSkipBlankLines k"
    unfolding hb using ne by (simp_all add: X_def)
qed

lemma typeExpectedThenBackspace_step:
  assumes inv: "engineInv s" and ne: "\<not> errorActive s" and nl: "\<not> locked s"
    and lt: "cursor s < int (length (text' s))"
  defines "p \<equiv> typeExpectedThenBackspace s"
  shows "engineInv p \<and> \<not> errorActive p \<and> \<not> locked p
     \<and> text' p = text' s \<and> autoSkipBlankLines p = autoSkipBlankLines s
     \<and> cursor p = cursor s \<and> typedEnd p = cursor s \<and> typedPositions p = typedPositions s
     \<and> correctChars p = correctChars s
     \<and> typedKeystrokes p = typedKeystrokes s + 2 \<and> backspaces p = backspaces s + 1
     \<and> length (marks p) = length (marks s) \<and> marks p ! nat (cursor s) = UNTOUCHED
     \<and> (\<not> (autoSkipBlankLines s \<and> text' s ! nat (cursor s) = NL)
          \<longrightarrow> marks p = (marks s)[nat (cursor s) := UNTOUCHED])"
proof -
  define k where "k = handleKey s [text' s ! nat (cursor s)]"
  have p: "p = handleBackspace k" by (simp add: p_def k_def typeExpectedThenBackspace_def)
  note hk = handleKey_expected[OF inv ne nl lt, folded k_def]
  note hb = handleBackspace_pop[OF hk(1) hk(2) hk(3), folded p]
  have c0: "0 \<le> cursor s" using inv by (simp add: engineInv_def coreInv_cursor_nonneg)
  have len: "length (marks s) = length (text' s)" "length (countedCorrect s) = length (text' s)"
    using inv by (simp_all add: engineInv_def coreInv_def markInv_def)
  have i: "nat (cursor s) < length (text' s)" using c0 lt by simp
  have "countedCorrect k ! nat (cursor s)" using hk(9) i len by simp
  then have cc: "correctChars p = correctChars s" using hb(5) hk(8) hk(11) by simp
  have "engineInv p" unfolding p using hk(1) by (rule handleBackspace_engineInv)
  moreover have "marks p ! nat (cursor s) = UNTOUCHED" using hb(4) hk(10) i len by simp
  moreover have "length (marks p) = length (marks s)" using hb(4) hk(10) by simp
  moreover have "marks p = (marks s)[nat (cursor s) := UNTOUCHED]"
    if "\<not> (autoSkipBlankLines s \<and> text' s ! nat (cursor s) = NL)"
    using hb(4) hk(12)[OF that] by simp
  ultimately show ?thesis
    using cc hb hk by simp
qed

text \<open>
  Claim C3 says that \<open>k\<close> pairs of the expected key and a backspace restore the cursor,
  \<open>typedEnd\<close>, the marks they touched and \<open>correctChars\<close>, and add \<open>k\<close> to \<open>typedKeystrokes\<close>
  and to \<open>backspaces\<close>. Three parts fail, each on a new engine after one pair:
  \<open>handleBackspace\<close> counts as a keystroke too, so \<open>typedKeystrokes\<close> grows by 2; after skip
  ranges \<open>typedEnd\<close> was below the cursor and the backspace sets it to the cursor; and the
  newlines that an Enter consumed keep their CORRECT mark.
\<close>

theorem key_backspace_pairs_counterexample:
  "typedKeystrokes (createTypingEngine (js ''abc'') (Fin 3) True [] False) = 0
   \<and> typedKeystrokes (typeExpectedThenBackspace (createTypingEngine (js ''abc'') (Fin 3) True [] False)) = 2
   \<and> typedEnd (createTypingEngine (js ''/*c*/b'') (Fin 3) True [\<lparr>start = Fin 0, end' = Fin 5\<rparr>] False) = 0
   \<and> typedEnd (typeExpectedThenBackspace
        (createTypingEngine (js ''/*c*/b'') (Fin 3) True [\<lparr>start = Fin 0, end' = Fin 5\<rparr>] False)) = 5
   \<and> marks (createTypingEngine (js ''\<newline>\<newline>P'') (Fin 3) True [] False) ! 1 = UNTOUCHED
   \<and> marks (typeExpectedThenBackspace (createTypingEngine (js ''\<newline>\<newline>P'') (Fin 3) True [] False)) ! 1 = CORRECT"
  by code_simp

text \<open>
  Claim C3, amended. In a reachable state with no active error, not locked and the cursor
  before the end of the text, \<open>k\<close> pairs of the expected key and a backspace restore the
  cursor, \<open>correctChars\<close> and \<open>typedPositions\<close>, leave the engine without error and unlocked,
  add \<open>2 k\<close> to \<open>typedKeystrokes\<close> and \<open>k\<close> to \<open>backspaces\<close>; for \<open>k > 0\<close> they leave
  \<open>typedEnd\<close> at the cursor and the mark at the cursor UNTOUCHED; and unless the key is an
  Enter under \<open>autoSkipBlankLines\<close>, every other mark is as before.
\<close>

theorem key_backspace_pairs:
  assumes r: "reachable s" and ne: "\<not> errorActive s" and nl: "\<not> locked s"
    and lt: "cursor s < int (length (text' s))"
  shows "cursor ((typeExpectedThenBackspace ^^ k) s) = cursor s
     \<and> correctChars ((typeExpectedThenBackspace ^^ k) s) = correctChars s
     \<and> typedPositions ((typeExpectedThenBackspace ^^ k) s) = typedPositions s
     \<and> typedKeystrokes ((typeExpectedThenBackspace ^^ k) s) = typedKeystrokes s + 2 * int k
     \<and> backspaces ((typeExpectedThenBackspace ^^ k) s) = backspaces s + int k
     \<and> \<not> errorActive ((typeExpectedThenBackspace ^^ k) s)
     \<and> \<not> locked ((typeExpectedThenBackspace ^^ k) s)
     \<and> (0 < k \<longrightarrow> typedEnd ((typeExpectedThenBackspace ^^ k) s) = cursor s
                  \<and> marks ((typeExpectedThenBackspace ^^ k) s) ! nat (cursor s) = UNTOUCHED)
     \<and> (\<not> (autoSkipBlankLines s \<and> text' s ! nat (cursor s) = NL) \<longrightarrow>
          (\<forall>i. i \<noteq> nat (cursor s) \<longrightarrow> marks ((typeExpectedThenBackspace ^^ k) s) ! i = marks s ! i))"
proof -
  have inv: "engineInv s" using r by (rule reachable_engineInv)
  have "engineInv ((typeExpectedThenBackspace ^^ k) s)
     \<and> text' ((typeExpectedThenBackspace ^^ k) s) = text' s
     \<and> autoSkipBlankLines ((typeExpectedThenBackspace ^^ k) s) = autoSkipBlankLines s
     \<and> length (marks ((typeExpectedThenBackspace ^^ k) s)) = length (marks s)
     \<and> cursor ((typeExpectedThenBackspace ^^ k) s) = cursor s
     \<and> correctChars ((typeExpectedThenBackspace ^^ k) s) = correctChars s
     \<and> typedPositions ((typeExpectedThenBackspace ^^ k) s) = typedPositions s
     \<and> typedKeystrokes ((typeExpectedThenBackspace ^^ k) s) = typedKeystrokes s + 2 * int k
     \<and> backspaces ((typeExpectedThenBackspace ^^ k) s) = backspaces s + int k
     \<and> \<not> errorActive ((typeExpectedThenBackspace ^^ k) s)
     \<and> \<not> locked ((typeExpectedThenBackspace ^^ k) s)
     \<and> (0 < k \<longrightarrow> typedEnd ((typeExpectedThenBackspace ^^ k) s) = cursor s
                  \<and> marks ((typeExpectedThenBackspace ^^ k) s) ! nat (cursor s) = UNTOUCHED)
     \<and> (\<not> (autoSkipBlankLines s \<and> text' s ! nat (cursor s) = NL) \<longrightarrow>
          (\<forall>i. i \<noteq> nat (cursor s) \<longrightarrow> marks ((typeExpectedThenBackspace ^^ k) s) ! i = marks s ! i))"
  proof (induction k)
    case 0
    show ?case using inv ne nl by simp
  next
    case (Suc k)
    let ?t = "(typeExpectedThenBackspace ^^ k) s"
    have t: "engineInv ?t" "\<not> errorActive ?t" "\<not> locked ?t" "cursor ?t < int (length (text' ?t))"
      using Suc.IH lt by simp_all
    note st = typeExpectedThenBackspace_step[OF t]
    have eq: "(typeExpectedThenBackspace ^^ Suc k) s = typeExpectedThenBackspace ?t" by simp
    have others: "\<forall>i. i \<noteq> nat (cursor s) \<longrightarrow> marks (typeExpectedThenBackspace ?t) ! i = marks s ! i"
      if h: "\<not> (autoSkipBlankLines s \<and> text' s ! nat (cursor s) = NL)"
    proof -
      have "marks (typeExpectedThenBackspace ?t) = (marks ?t)[nat (cursor s) := UNTOUCHED]"
        using st h Suc.IH by simp
      moreover have "\<forall>i. i \<noteq> nat (cursor s) \<longrightarrow> marks ?t ! i = marks s ! i"
        using Suc.IH h by blast
      ultimately show ?thesis by simp
    qed
    show ?case unfolding eq using st Suc.IH others by simp
  qed
  then show ?thesis by blast
qed

theorem key_backspace_pairs_witness:
  "reachable (createTypingEngine (js ''abc'') (Fin 3) True [] False)
   \<and> cursor ((typeExpectedThenBackspace ^^ 2) (createTypingEngine (js ''abc'') (Fin 3) True [] False)) = 0
   \<and> typedKeystrokes ((typeExpectedThenBackspace ^^ 2) (createTypingEngine (js ''abc'') (Fin 3) True [] False)) = 4
   \<and> backspaces ((typeExpectedThenBackspace ^^ 2) (createTypingEngine (js ''abc'') (Fin 3) True [] False)) = 2
   \<and> marks ((typeExpectedThenBackspace ^^ 2) (createTypingEngine (js ''abc'') (Fin 3) True [] False)) ! 0 = UNTOUCHED"
proof -
  define s where "s = createTypingEngine (js ''abc'') (Fin 3) True [] False"
  have r: "reachable s" unfolding s_def by (rule reachable.created)
  have h: "\<not> errorActive s" "\<not> locked s" "cursor s < int (length (text' s))"
    unfolding s_def by code_simp+
  have v: "cursor s = 0" "typedKeystrokes s = 0" "backspaces s = 0"
    unfolding s_def by code_simp+
  note t = key_backspace_pairs[OF r h, of 2]
  show ?thesis using t r v unfolding s_def by simp
qed


section \<open>Properties of the segmenter\<close>

lemma splitLines_single: "NL \<notin> set cs \<Longrightarrow> splitLines cs = [cs]"
  by (induction cs) auto

lemma slices_count:
  assumes "0 < cap" "offset < n"
  shows "(n - offset + cap - 1) div cap = Suc ((n - (offset + cap) + cap - 1) div cap)"
proof (cases "offset + cap \<le> n")
  case True
  then have a: "n - offset + cap - 1 = (n - offset - 1) + cap"
    and b: "n - (offset + cap) + cap - 1 = n - offset - 1"
    using assms by simp_all
  show ?thesis unfolding a b using assms(1) by simp
next
  case False
  then have a: "n - (offset + cap) = 0" and b: "n - offset + cap - 1 < 2 * cap" "cap \<le> n - offset + cap - 1"
    using assms by simp_all
  have "(n - offset + cap - 1) div cap = 1"
    using b assms(1) by (intro div_nat_eqI) simp_all
  then show ?thesis using a assms(1) by simp
qed

lemma sliceLoop_segments:
  "0 < charLimit \<Longrightarrow>
   segments (sliceLoop line lineNumber lineStartOffset charLimit offset v) =
     segments v @
       map (\<lambda>j. sliceSegment line lineNumber lineStartOffset charLimit (nextIndex v + j) (offset + j * charLimit))
           [0 ..< (length line - offset + charLimit - 1) div charLimit]"
proof (induction line lineNumber lineStartOffset charLimit offset v rule: sliceLoop.induct)
  case (1 line lineNumber lineStartOffset charLimit offset v)
  show ?case
  proof (cases "offset < length line")
    case False
    then have "(length line - offset + charLimit - 1) div charLimit = 0"
      using "1.prems" by simp
    then show ?thesis using False by (subst sliceLoop.simps) simp
  next
    case True
    let ?v = "v\<lparr>segments := segments v @
                    [\<lparr>index = nextIndex v, startLine = lineNumber, endLine = lineNumber,
                      text' = slice line offset (offset + charLimit),
                      startOffset = lineStartOffset + offset,
                      endOffset = lineStartOffset + offset + length (slice line offset (offset + charLimit))\<rparr>],
                  nextIndex := nextIndex v + 1\<rparr>"
    let ?m = "(length line - (offset + charLimit) + charLimit - 1) div charLimit"
    have cnt: "(length line - offset + charLimit - 1) div charLimit = Suc ?m"
      using "1.prems" True by (rule slices_count)
    have unf: "sliceLoop line lineNumber lineStartOffset charLimit offset v =
               sliceLoop line lineNumber lineStartOffset charLimit (offset + charLimit) ?v"
      using True "1.prems" by (subst sliceLoop.simps) (simp add: Let_def)
    have IH: "segments (sliceLoop line lineNumber lineStartOffset charLimit (offset + charLimit) ?v) =
       segments ?v @ map (\<lambda>j. sliceSegment line lineNumber lineStartOffset charLimit (nextIndex ?v + j) (offset + charLimit + j * charLimit)) [0 ..< ?m]"
      using "1.IH"[OF _ refl "1.prems"] True "1.prems" by simp
    have "map (\<lambda>j. sliceSegment line lineNumber lineStartOffset charLimit (nextIndex v + j) (offset + j * charLimit)) [0 ..< Suc ?m]
        = sliceSegment line lineNumber lineStartOffset charLimit (nextIndex v) offset
          # map (\<lambda>j. sliceSegment line lineNumber lineStartOffset charLimit (nextIndex v + Suc j) (offset + Suc j * charLimit)) [0 ..< ?m]"
      by (simp add: map_upt_Suc del: upt_Suc)
    moreover have "map (\<lambda>j. sliceSegment line lineNumber lineStartOffset charLimit (nextIndex v + Suc j) (offset + Suc j * charLimit)) [0 ..< ?m]
        = map (\<lambda>j. sliceSegment line lineNumber lineStartOffset charLimit (nextIndex ?v + j) (offset + charLimit + j * charLimit)) [0 ..< ?m]"
      by (rule map_cong) (simp_all add: ac_simps)
    ultimately show ?thesis
      unfolding unf IH cnt by (simp add: sliceSegment_def del: upt_Suc)
  qed
qed

lemma split_single_oversize:
  assumes nonl: "NL \<notin> set normalized" and r: "0 < r" and big: "nat (max 1 \<lfloor>r\<rfloor>) < length normalized"
  shows "splitNormalizedByLinesWithOffsets normalized linesPerSegment (Fin r) =
         map (\<lambda>j. sliceSegment normalized 1 0 (nat (max 1 \<lfloor>r\<rfloor>)) j (j * nat (max 1 \<lfloor>r\<rfloor>)))
             [0 ..< (length normalized + nat (max 1 \<lfloor>r\<rfloor>) - 1) div nat (max 1 \<lfloor>r\<rfloor>)]"
proof -
  define cap where "cap = nat (max 1 \<lfloor>r\<rfloor>)"
  have cap: "0 < cap" by (simp add: cap_def)
  have lim: "coerceCharLimit (Fin r) = Some cap" using r by (simp add: coerceCharLimit_def cap_def)
  let ?v0 = "\<lparr>segments = [], nextIndex = 0, segmentStartLine = Suc 0,
                currentLinesCount = 0, currentChars = 0\<rparr>"
  have "splitNormalizedByLinesWithOffsets normalized linesPerSegment (Fin r) =
        segments (sliceLoop normalized (Suc 0) 0 cap 0 ?v0)"
    unfolding splitNormalizedByLinesWithOffsets_def Let_def
    using big
    by (simp add: splitLines_single[OF nonl] lim segmentLine_def Let_def exceedsLimit_def cap_def)
  then show ?thesis
    using sliceLoop_segments[OF cap, of normalized "Suc 0" 0 0 ?v0]
    by (simp add: cap_def)
qed


lemma ceiling_div_nat:
  assumes "0 < cap"
  shows "int ((n + cap - 1) div cap) = \<lceil>real n / real cap\<rceil>"
proof -
  define m where "m = (n + cap - 1) div cap"
  have lo: "m * cap \<le> n + cap - 1" unfolding m_def by (rule div_times_less_eq_dividend)
  have hi: "n + cap - 1 < cap + m * cap"
    unfolding m_def using assms by (rule dividend_less_div_times)
  have a: "real n \<le> real m * real cap"
  proof -
    have "n \<le> m * cap" using hi assms by simp
    then show ?thesis by (metis of_nat_le_iff of_nat_mult)
  qed
  have b: "(real m - 1) * real cap < real n"
  proof (cases m)
    case 0
    then show ?thesis using assms by (simp add: mult_less_0_iff)
  next
    case (Suc m')
    then have "m' * cap < n" using lo assms by simp
    then have "real (m' * cap) < real n" by (simp only: of_nat_less_iff)
    then show ?thesis using Suc by simp
  qed
  have "\<lceil>real n / real cap\<rceil> = int m"
  proof (rule ceiling_unique)
    show "of_int (int m) - 1 < real n / real cap"
      using b assms by (simp add: pos_less_divide_eq)
    show "real n / real cap \<le> of_int (int m)"
      using a assms by (simp add: pos_divide_le_eq)
  qed
  then show ?thesis by (simp add: m_def)
qed

text \<open>
  Claim C6. Let the normalized input be a single line (no newline in it) longer than the
  cap, where the cap is \<open>maxSegmentChars\<close> as the segmenter coerces it, \<open>max(1, floor(m))\<close> for a
  finite \<open>m > 0\<close>. Then, for any \<open>linesPerSegment\<close>, the segmenter emits \<open>\<lceil>len / cap\<rceil>\<close>
  segments; segment \<open>i\<close> has index \<open>i\<close>, lines 1 to 1 and starts at offset \<open>i * cap\<close>; its text
  is the slice of the input from its start offset to its end offset, which is the start
  offset plus the length of the text; every segment but the last has exactly \<open>cap\<close> code
  units and ends where the next one starts, and the last one is not empty, has at most
  \<open>cap\<close> code units and ends at the end of the input.
\<close>

theorem oversize_single_line_segments:
  assumes nonl: "NL \<notin> set normalized" and r: "0 < r" and cap: "cap = nat (max 1 \<lfloor>r\<rfloor>)"
    and big: "cap < length normalized"
  shows "let segs = splitNormalizedByLinesWithOffsets normalized linesPerSegment (Fin r);
             n = length normalized
         in int (length segs) = \<lceil>real n / real cap\<rceil>
          \<and> (\<forall>i < length segs.
                index (segs ! i) = i \<and> startLine (segs ! i) = 1 \<and> endLine (segs ! i) = 1
              \<and> startOffset (segs ! i) = i * cap
              \<and> TextSegmentWithOffsets.text' (segs ! i)
                   = slice normalized (startOffset (segs ! i)) (endOffset (segs ! i))
              \<and> endOffset (segs ! i)
                   = startOffset (segs ! i) + length (TextSegmentWithOffsets.text' (segs ! i))
              \<and> 0 < length (TextSegmentWithOffsets.text' (segs ! i))
              \<and> (i + 1 < length segs \<longrightarrow>
                    length (TextSegmentWithOffsets.text' (segs ! i)) = cap
                    \<and> startOffset (segs ! (i + 1)) = endOffset (segs ! i))
              \<and> (i + 1 = length segs \<longrightarrow>
                    length (TextSegmentWithOffsets.text' (segs ! i)) \<le> cap
                    \<and> endOffset (segs ! i) = n))"
proof -
  define n where "n = length normalized"
  define m where "m = (n + cap - 1) div cap"
  define segs where "segs = splitNormalizedByLinesWithOffsets normalized linesPerSegment (Fin r)"
  have cap0: "0 < cap" using cap by simp
  have segs: "segs = map (\<lambda>j. sliceSegment normalized 1 0 cap j (j * cap)) [0 ..< m]"
    unfolding segs_def m_def n_def cap
    using nonl r big[unfolded cap] by (rule split_single_oversize)
  have len: "length segs = m" by (simp add: segs)
  have lo: "m * cap \<le> n + cap - 1" unfolding m_def by (rule div_times_less_eq_dividend)
  have hi: "n + cap - 1 < cap + m * cap"
    unfolding m_def using cap0 by (rule dividend_less_div_times)
  have nle: "n \<le> m * cap" using hi cap0 by simp
  have seg: "segs ! i = sliceSegment normalized 1 0 cap i (i * cap)" if "i < m" for i
    using that by (simp add: segs)
  have below: "i * cap < n" if "i < m" for i
  proof -
    have "Suc i * cap \<le> m * cap" using that by (intro mult_le_mono1) simp
    then have "i * cap + cap \<le> n + cap - 1" using lo by simp
    then show ?thesis using cap0 by simp
  qed
  have txtlen: "length (slice normalized (i * cap) (i * cap + cap)) = min cap (n - i * cap)" for i
    by (simp add: slice_def n_def min.commute)
  have full: "Suc i * cap \<le> n" if "Suc i < m" for i
    using below[OF that] by simp
  have each: "index (segs ! i) = i \<and> startLine (segs ! i) = 1 \<and> endLine (segs ! i) = 1
              \<and> startOffset (segs ! i) = i * cap
              \<and> TextSegmentWithOffsets.text' (segs ! i)
                   = slice normalized (startOffset (segs ! i)) (endOffset (segs ! i))
              \<and> endOffset (segs ! i)
                   = startOffset (segs ! i) + length (TextSegmentWithOffsets.text' (segs ! i))
              \<and> 0 < length (TextSegmentWithOffsets.text' (segs ! i))
              \<and> (i + 1 < length segs \<longrightarrow>
                    length (TextSegmentWithOffsets.text' (segs ! i)) = cap
                    \<and> startOffset (segs ! (i + 1)) = endOffset (segs ! i))
              \<and> (i + 1 = length segs \<longrightarrow>
                    length (TextSegmentWithOffsets.text' (segs ! i)) \<le> cap
                    \<and> endOffset (segs ! i) = n)" if i: "i < length segs" for i
  proof -
    have im: "i < m" using i len by simp
    note b = below[OF im]
    have t: "TextSegmentWithOffsets.text' (segs ! i) = slice normalized (i * cap) (i * cap + cap)"
      and so: "startOffset (segs ! i) = i * cap"
      and eo: "endOffset (segs ! i) = i * cap + min cap (n - i * cap)"
      and ix: "index (segs ! i) = i" "startLine (segs ! i) = 1" "endLine (segs ! i) = 1"
      using seg[OF im] txtlen[of i] by (simp_all add: sliceSegment_def)
    have tl: "length (TextSegmentWithOffsets.text' (segs ! i)) = min cap (n - i * cap)"
      unfolding t by (rule txtlen)
    have again: "slice normalized (i * cap) (i * cap + min cap (n - i * cap))
                 = slice normalized (i * cap) (i * cap + cap)"
      by (simp add: slice_def n_def min_def)
    have pos: "0 < min cap (n - i * cap)" using b cap0 by simp
    have nxt: "length (TextSegmentWithOffsets.text' (segs ! i)) = cap
               \<and> startOffset (segs ! (i + 1)) = endOffset (segs ! i)" if "i + 1 < length segs"
    proof -
      have s: "Suc i < m" using that len by simp
      have "Suc i * cap \<le> n" using s by (rule full)
      then have "min cap (n - i * cap) = cap" by simp
      moreover have "startOffset (segs ! (i + 1)) = Suc i * cap"
        using seg[OF s] by (simp add: sliceSegment_def)
      ultimately show ?thesis using tl eo by simp
    qed
    have lst: "length (TextSegmentWithOffsets.text' (segs ! i)) \<le> cap \<and> endOffset (segs ! i) = n"
      if "i + 1 = length segs"
    proof -
      have "m = Suc i" using that len by simp
      then have "n \<le> i * cap + cap" using nle by simp
      then have "min cap (n - i * cap) = n - i * cap" by simp
      then show ?thesis using tl eo b by simp
    qed
    show ?thesis
      using ix so t eo tl again pos nxt lst by simp
  qed
  have "int (length segs) = \<lceil>real n / real cap\<rceil>"
    unfolding len m_def using cap0 by (rule ceiling_div_nat)
  then show ?thesis
    using each unfolding Let_def segs_def[symmetric] n_def[symmetric] by blast
qed

theorem oversize_single_line_segments_witness:
  "map (\<lambda>g. (index g, startLine g, endLine g, TextSegmentWithOffsets.text' g, startOffset g, endOffset g))
     (splitNormalizedByLinesWithOffsets (js ''abcdefg'') (Fin 200) (Fin 3))
   = [(0, 1, 1, js ''abc'', 0, 3), (1, 1, 1, js ''def'', 3, 6), (2, 1, 1, js ''g'', 6, 7)]
   \<and> int (length (splitNormalizedByLinesWithOffsets (js ''abcdefg'') (Fin 200) (Fin 3)))
       = \<lceil>real (length (js ''abcdefg'')) / real (3::nat)\<rceil>"
proof -
  have h: "NL \<notin> set (js ''abcdefg'')" "(0::real) < 3" "(3::nat) = nat (max 1 \<lfloor>3::real\<rfloor>)"
    "3 < length (js ''abcdefg'')"
    by (simp_all add: js_def)
  note t = oversize_single_line_segments[OF h, of "Fin 200", unfolded Let_def]
  have v: "map (\<lambda>g. (index g, startLine g, endLine g, TextSegmentWithOffsets.text' g, startOffset g, endOffset g))
     (splitNormalizedByLinesWithOffsets (js ''abcdefg'') (Fin 200) (Fin 3))
   = [(0, 1, 1, js ''abc'', 0, 3), (1, 1, 1, js ''def'', 3, 6), (2, 1, 1, js ''g'', 6, 7)]"
    by code_simp
  from t have "int (length (splitNormalizedByLinesWithOffsets (js ''abcdefg'') (Fin 200) (Fin 3)))
       = \<lceil>real (length (js ''abcdefg'')) / real (3::nat)\<rceil>"
    by (rule conjunct1)
  with v show ?thesis by simp
qed


section \<open>Properties of the skippable line breaks\<close>

lemma lineStartOf_0 [simp]: "lineStartOf txt 0 = 0"
  by (simp add: lineStartOf_def)

lemma lineStartOf_Suc:
  assumes "i < length txt"
  shows "lineStartOf txt (Suc i) = (if txt ! i = NL then Suc i else lineStartOf txt i)"
proof -
  have "take (Suc i) txt = take i txt @ [txt ! i]" using assms by (rule take_Suc_conv_app_nth)
  then have r: "rev (take (Suc i) txt) = txt ! i # rev (take i txt)" by simp
  have "length (takeWhile (\<lambda>c. c \<noteq> NL) (rev (take i txt))) \<le> i"
    using length_takeWhile_le[of "\<lambda>c. c \<noteq> NL" "rev (take i txt)"] by simp
  then show ?thesis unfolding lineStartOf_def r by simp
qed

lemma lineStartOf_spec:
  "i \<le> length txt \<Longrightarrow>
   lineStartOf txt i \<le> i
   \<and> (\<forall>k. lineStartOf txt i \<le> k \<and> k < i \<longrightarrow> txt ! k \<noteq> NL)
   \<and> (lineStartOf txt i = 0 \<or> txt ! (lineStartOf txt i - 1) = NL)"
proof (induction i)
  case 0
  show ?case by simp
next
  case (Suc i)
  then have i: "i < length txt" and IH: "lineStartOf txt i \<le> i"
    "\<forall>k. lineStartOf txt i \<le> k \<and> k < i \<longrightarrow> txt ! k \<noteq> NL"
    "lineStartOf txt i = 0 \<or> txt ! (lineStartOf txt i - 1) = NL"
    by simp_all
  show ?case
  proof (cases "txt ! i = NL")
    case True
    then show ?thesis by (auto simp: lineStartOf_Suc[OF i])
  next
    case False
    have "txt ! k \<noteq> NL" if "lineStartOf txt i \<le> k" "k < Suc i" for k
      using that IH(2) False by (cases "k = i") auto
    then show ?thesis using False IH by (simp add: lineStartOf_Suc[OF i])
  qed
qed

lemma fill_one_range:
  "\<forall>x\<in>set xs. 0 \<le> x \<Longrightarrow>
   length (foldl (\<lambda>m' i. m'[nat i := True]) m xs) = length m
   \<and> (\<forall>j < length m. foldl (\<lambda>m' i. m'[nat i := True]) m xs ! j = (m ! j \<or> int j \<in> set xs))"
proof (induction xs arbitrary: m)
  case Nil
  show ?case by simp
next
  case (Cons x xs)
  have x: "0 \<le> x" and xs: "\<forall>x\<in>set xs. 0 \<le> x" using Cons.prems by simp_all
  note IH = Cons.IH[OF xs, of "m[nat x := True]"]
  have "(m[nat x := True]) ! j = (m ! j \<or> int j = x)" if "j < length m" for j
  proof (cases "nat x = j")
    case True
    then show ?thesis using that x by auto
  next
    case False
    then have "int j \<noteq> x" using x by auto
    then show ?thesis using False by simp
  qed
  then show ?case using IH by auto
qed

lemma fillSkipMask_nth:
  "\<forall>r\<in>set rs. 0 \<le> start r \<Longrightarrow>
   length (fillSkipMask m rs) = length m
   \<and> (\<forall>j < length m. fillSkipMask m rs ! j = (m ! j \<or> covered rs (int j)))"
proof (induction rs arbitrary: m)
  case Nil
  show ?case by (simp add: fillSkipMask_def covered_def)
next
  case (Cons r rs)
  let ?m = "foldl (\<lambda>m' i. m'[nat i := True]) m [start r .. end' r - 1]"
  have r0: "0 \<le> start r" and rs: "\<forall>r\<in>set rs. 0 \<le> start r" using Cons.prems by simp_all
  have one: "length ?m = length m"
    "\<forall>j < length m. ?m ! j = (m ! j \<or> int j \<in> set [start r .. end' r - 1])"
    using fill_one_range[of "[start r .. end' r - 1]" m] r0 by auto
  have unf: "fillSkipMask m (r # rs) = fillSkipMask ?m rs" by (simp add: fillSkipMask_def)
  note IH = Cons.IH[OF rs, of ?m]
  have "fillSkipMask ?m rs ! j = (m ! j \<or> covered (r # rs) (int j))" if "j < length m" for j
  proof -
    have "fillSkipMask ?m rs ! j = (?m ! j \<or> covered rs (int j))" using IH that one(1) by simp
    moreover have "?m ! j = (m ! j \<or> inRange r (int j))"
      using one(2) that by (auto simp: inRange_def)
    ultimately show ?thesis by (auto simp: covered_def)
  qed
  then show ?case unfolding unf using IH one(1) by simp
qed

lemma hasPrintableFrom_iff:
  "hasPrintableFrom skipMask j i \<longleftrightarrow> (\<exists>k. j \<le> k \<and> k < i \<and> \<not> skipMask ! k)"
proof (induction skipMask j i rule: hasPrintableFrom.induct)
  case (1 skipMask j i)
  show ?case
  proof (cases "j < i")
    case False
    then show ?thesis by (subst hasPrintableFrom.simps) simp
  next
    case True
    show ?thesis
    proof (cases "skipMask ! j")
      case False
      then show ?thesis using True by (subst hasPrintableFrom.simps) auto
    next
      case m: True
      have "hasPrintableFrom skipMask j i = hasPrintableFrom skipMask (j + 1) i"
        using True m by (subst hasPrintableFrom.simps) simp
      also have "\<dots> \<longleftrightarrow> (\<exists>k. j + 1 \<le> k \<and> k < i \<and> \<not> skipMask ! k)"
        using "1.IH"[OF True] m by simp
      also have "\<dots> \<longleftrightarrow> (\<exists>k. j \<le> k \<and> k < i \<and> \<not> skipMask ! k)"
        using m by (metis Suc_eq_plus1 Suc_leD Suc_leI le_neq_implies_less)
      finally show ?thesis .
    qed
  qed
qed

lemma lineBreak_loop:
  assumes mask: "\<forall>j < length txt. skipMask ! j = (\<exists>r\<in>set base. insideInput r (int j))"
  shows "m \<le> length txt \<Longrightarrow>
     foldl (lineBreakStep txt skipMask) ([], 0) [0 ..< m] =
       (map (\<lambda>i. \<lparr>start = int i, end' = int i + 1\<rparr>)
            (filter (\<lambda>i. txt ! i = NL \<and> lineContentSkipped base txt i) [0 ..< m]),
        lineStartOf txt m)"
proof (induction m)
  case 0
  show ?case by simp
next
  case (Suc m)
  then have m: "m < length txt" by simp
  have IH: "foldl (lineBreakStep txt skipMask) ([], 0) [0 ..< m] =
       (map (\<lambda>i. \<lparr>start = int i, end' = int i + 1\<rparr>)
            (filter (\<lambda>i. txt ! i = NL \<and> lineContentSkipped base txt i) [0 ..< m]),
        lineStartOf txt m)"
    using Suc by simp
  have ls: "lineStartOf txt m \<le> m" using lineStartOf_spec[of m "txt"] m by simp
  have hp: "\<not> hasPrintableFrom skipMask (lineStartOf txt m) m \<longleftrightarrow> lineContentSkipped base txt m"
    unfolding hasPrintableFrom_iff lineContentSkipped_def using mask m by auto
  have "foldl (lineBreakStep txt skipMask) ([], 0) [0 ..< Suc m] =
        lineBreakStep txt skipMask (foldl (lineBreakStep txt skipMask) ([], 0) [0 ..< m]) m"
    by simp
  also have "\<dots> = lineBreakStep txt skipMask
       (map (\<lambda>i. \<lparr>start = int i, end' = int i + 1\<rparr>)
            (filter (\<lambda>i. txt ! i = NL \<and> lineContentSkipped base txt i) [0 ..< m]),
        lineStartOf txt m) m"
    by (simp only: IH)
  also have "\<dots> = (map (\<lambda>i. \<lparr>start = int i, end' = int i + 1\<rparr>)
            (filter (\<lambda>i. txt ! i = NL \<and> lineContentSkipped base txt i) [0 ..< Suc m]),
        lineStartOf txt (Suc m))"
    using hp m by (simp add: lineBreakStep_def Let_def lineStartOf_Suc)
  finally show ?case .
qed

text \<open>
  Claim C8. \<open>computeSkippableLineBreakRanges\<close> returns, in ascending order, the range
  \<open>{i, i + 1}\<close> of exactly those newlines at \<open>i\<close> whose line content, the offsets from the
  line start up to but not including \<open>i\<close>, lies inside the union of the base ranges (their
  bounds floored, as the merge does; a blank line has no content and its newline is
  skippable). The line start is where the claim puts it: no newline between it and \<open>i\<close>,
  and a newline, or the start of the text, just before it. On \<open>"a\n//x\nb"\<close> with the base
  range \<open>{2, 5}\<close> the result is exactly \<open>{5, 6}\<close>: the newline of the comment-only line,
  and not the newline of the line with code.
\<close>

theorem skippable_line_breaks:
  "computeSkippableLineBreakRanges txt base =
     map (\<lambda>i. \<lparr>start = int i, end' = int i + 1\<rparr>)
         (filter (\<lambda>i. txt ! i = NL \<and> lineContentSkipped base txt i) [0 ..< length txt])
   \<and> (\<forall>i \<le> length txt.
         lineStartOf txt i \<le> i
         \<and> (\<forall>k. lineStartOf txt i \<le> k \<and> k < i \<longrightarrow> txt ! k \<noteq> NL)
         \<and> (lineStartOf txt i = 0 \<or> txt ! (lineStartOf txt i - 1) = NL))
   \<and> computeSkippableLineBreakRanges (js ''a\<newline>//x\<newline>b'') [\<lparr>start = Fin 2, end' = Fin 5\<rparr>]
       = [\<lparr>start = 5, end' = 6\<rparr>]"
proof -
  let ?n = "int (length txt)"
  have gen: "computeSkippableLineBreakRanges txt base =
     map (\<lambda>i. \<lparr>start = int i, end' = int i + 1\<rparr>)
         (filter (\<lambda>i. txt ! i = NL \<and> lineContentSkipped base txt i) [0 ..< length txt])"
  proof (cases "txt = []")
    case True
    then show ?thesis by (simp add: computeSkippableLineBreakRanges_def)
  next
    case False
    define skipMask where "skipMask = fillSkipMask (replicate (length txt) False) (mergeRanges base ?n)"
    have good: "goodRanges ?n (mergeRanges base ?n)" by (rule mergeRanges_good) simp
    then have "\<forall>r\<in>set (mergeRanges base ?n). 0 \<le> start r"
      by (simp add: goodRanges_def validRange_def)
    note f = fillSkipMask_nth[OF this, of "replicate (length txt) False"]
    have mask: "\<forall>j < length txt. skipMask ! j = (\<exists>r\<in>set base. insideInput r (int j))"
    proof (intro allI impI)
      fix j assume j: "j < length txt"
      then have "skipMask ! j = covered (mergeRanges base ?n) (int j)"
        using f by (simp add: skipMask_def)
      also have "\<dots> = covered (trimmedRanges base ?n) (int j)"
        by (rule mergeRanges_covered) simp
      also have "\<dots> = (\<exists>r\<in>set base. insideInput r (int j))"
        using j by (intro covered_trimmedRanges) simp_all
      finally show "skipMask ! j = (\<exists>r\<in>set base. insideInput r (int j))" .
    qed
    have "computeSkippableLineBreakRanges txt base =
          fst (foldl (lineBreakStep txt skipMask) ([], 0) [0 ..< length txt])"
      using False by (simp add: computeSkippableLineBreakRanges_def Let_def skipMask_def)
    then show ?thesis using lineBreak_loop[OF mask, of "length txt"] by simp
  qed
  have ex: "computeSkippableLineBreakRanges (js ''a\<newline>//x\<newline>b'') [\<lparr>start = Fin 2, end' = Fin 5\<rparr>]
       = [\<lparr>start = 5, end' = 6\<rparr>]"
    by code_simp
  show ?thesis using gen ex lineStartOf_spec[of _ "txt"] by blast
qed

theorem skippable_line_breaks_witness:
  "computeSkippableLineBreakRanges (js ''a //x\<newline>b'') [\<lparr>start = Fin 1, end' = Fin 5\<rparr>] = []
   \<and> lineStartOf (js ''a //x\<newline>b'') 5 = 0
   \<and> \<not> lineContentSkipped [\<lparr>start = Fin 1, end' = Fin 5\<rparr>] (js ''a //x\<newline>b'') 5"
proof -
  note t = skippable_line_breaks[of "js ''a //x\<newline>b''" "[\<lparr>start = Fin 1, end' = Fin 5\<rparr>]"]
  have v: "map (\<lambda>i. \<lparr>start = int i, end' = int i + 1\<rparr>)
         (filter (\<lambda>i. js ''a //x\<newline>b'' ! i = NL
                     \<and> lineContentSkipped [\<lparr>start = Fin 1, end' = Fin 5\<rparr>] (js ''a //x\<newline>b'') i)
           [0 ..< length (js ''a //x\<newline>b'')]) = []"
    "lineStartOf (js ''a //x\<newline>b'') 5 = 0"
    "\<not> lineContentSkipped [\<lparr>start = Fin 1, end' = Fin 5\<rparr>] (js ''a //x\<newline>b'') 5"
    by code_simp+
  from t have "computeSkippableLineBreakRanges (js ''a //x\<newline>b'') [\<lparr>start = Fin 1, end' = Fin 5\<rparr>] =
     map (\<lambda>i. \<lparr>start = int i, end' = int i + 1\<rparr>)
         (filter (\<lambda>i. js ''a //x\<newline>b'' ! i = NL
                     \<and> lineContentSkipped [\<lparr>start = Fin 1, end' = Fin 5\<rparr>] (js ''a //x\<newline>b'') i)
           [0 ..< length (js ''a //x\<newline>b'')])"
    by (rule conjunct1)
  with v show ?thesis by simp
qed


section \<open>Properties of the normalizer\<close>

lemma replaceCRLF_no_CR: "CR \<notin> set cs \<Longrightarrow> replaceCRLF cs = cs"
  by (induction cs rule: replaceCRLF.induct) auto

lemma replaceCR_no_CR: "CR \<notin> set cs \<Longrightarrow> replaceCR cs = cs"
  by (induction cs) (auto simp: replaceCR_def)

lemma replaceTabs_no_TAB: "TAB \<notin> set cs \<Longrightarrow> replaceTabs b cs = cs"
  by (induction cs) (auto simp: replaceTabs_def)

lemma CR_notin_replaceCR: "CR \<notin> set (replaceCR cs)"
  by (auto simp: replaceCR_def)

lemma CR_notin_replaceTabs: "CR \<notin> set cs \<Longrightarrow> CR \<notin> set b \<Longrightarrow> CR \<notin> set (replaceTabs b cs)"
  by (induction cs) (auto simp: replaceTabs_def)

lemma TAB_notin_replaceTabs: "TAB \<notin> set b \<Longrightarrow> TAB \<notin> set (replaceTabs b cs)"
  by (induction cs) (auto simp: replaceTabs_def)

lemma normalizeText_clean:
  "CR \<notin> set (normalizeText x w) \<and> TAB \<notin> set (normalizeText x w)"
  unfolding normalizeText_def Let_def
  by (simp add: CR_notin_replaceTabs TAB_notin_replaceTabs CR_notin_replaceCR)

lemma normalizeText_of_clean:
  assumes "CR \<notin> set y" "TAB \<notin> set y"
  shows "normalizeText y w = (if charAt y 0 = Some BOM then drop 1 y else y)"
proof -
  have "CR \<notin> set (drop 1 y)" "TAB \<notin> set (drop 1 y)"
    using assms by (auto dest: in_set_dropD)
  then show ?thesis using assms
    by (simp add: normalizeText_def Let_def replaceCRLF_no_CR replaceCR_no_CR replaceTabs_no_TAB)
qed

text \<open>
  Claim C9 says that normalizing twice is normalizing once. The code drops one leading
  U+FEFF only, so a second U+FEFF that the first pass leaves in front is dropped by the
  second pass: the claim fails on the two code units U+FEFF U+FEFF.
\<close>

theorem normalize_idempotent_counterexample:
  "normalizeText (normalizeText [BOM, BOM] (Fin 4)) (Fin 4) \<noteq> normalizeText [BOM, BOM] (Fin 4)"
  by code_simp

text \<open>
  Claim C9, amended. For every input \<open>x\<close> and tab width \<open>w\<close>, normalizing \<open>normalize(x, w)\<close>
  again only drops its leading U+FEFF, if it has one; so the second pass changes nothing
  exactly when \<open>normalize(x, w)\<close> does not begin with U+FEFF.
\<close>

theorem normalize_twice:
  "normalizeText (normalizeText x w) w =
     (if charAt (normalizeText x w) 0 = Some BOM then drop 1 (normalizeText x w) else normalizeText x w)
   \<and> (normalizeText (normalizeText x w) w = normalizeText x w
        \<longleftrightarrow> charAt (normalizeText x w) 0 \<noteq> Some BOM)"
proof -
  let ?y = "normalizeText x w"
  have eq: "normalizeText ?y w = (if charAt ?y 0 = Some BOM then drop 1 ?y else ?y)"
    using normalizeText_clean[of x w] by (intro normalizeText_of_clean) auto
  have "drop 1 ?y \<noteq> ?y" if "charAt ?y 0 = Some BOM"
  proof
    assume "drop 1 ?y = ?y"
    then have "length (drop 1 ?y) = length ?y" by simp
    moreover have "?y \<noteq> []" using that by (auto simp: charAt_def)
    ultimately show False by (cases ?y) auto
  qed
  with eq show ?thesis by auto
qed

section \<open>Scenarios of the typing engine\<close>

text \<open>
  Claim C4. The engine created on \<open>"abcdef"\<close> with \<open>slackN = 2\<close> and no skip ranges (the other
  arguments at their defaults): after the keys \<open>x\<close>, \<open>b\<close>, \<open>c\<close>, \<open>d\<close> it is locked with the
  cursor at 3; a further key \<open>e\<close> is counted (\<open>typedKeystrokes = 5\<close>) and changes nothing
  else; one backspace then unlocks, moves the cursor to 2, sets \<open>backspaces = 1\<close> and
  leaves \<open>marks[2]\<close> UNTOUCHED.
\<close>

theorem exceeding_slack_locks:
  "let s0 = createTypingEngine (js ''abcdef'') (Fin 2) True [] False;
       s4 = handleKey (handleKey (handleKey (handleKey s0 (js ''x'')) (js ''b'')) (js ''c'')) (js ''d'');
       s5 = handleKey s4 (js ''e'');
       s6 = handleBackspace s5
   in locked s4 \<and> cursor s4 = 3
      \<and> cursor s5 = 3 \<and> typedKeystrokes s5 = 5 \<and> s5 = s4\<lparr>typedKeystrokes := 5\<rparr>
      \<and> \<not> locked s6 \<and> cursor s6 = 2 \<and> backspaces s6 = 1 \<and> marks s6 ! 2 = UNTOUCHED"
  by code_simp

section \<open>The slack after an error\<close>

subsection \<open>The snapshot of the typed progress\<close>

lemma errInv_if:
  "(c \<Longrightarrow> errInv a) \<Longrightarrow> (\<not> c \<Longrightarrow> errInv b) \<Longrightarrow> errInv (if c then a else b)"
  by simp

lemma handleKey_errInv:
  assumes "errInv s"
  shows "errInv (handleKey s ch)"
  unfolding handleKey_def Let_def
proof (intro errInv_if)
  show "errInv s" by (rule assms)
next
  show "errInv (s\<lparr>typedKeystrokes := typedKeystrokes s + 1\<rparr>)"
    using assms by (simp add: errInv_def)
next
  show "errInv (skipForwardIfNeeded (s\<lparr>typedKeystrokes := typedKeystrokes s + 1\<rparr>))"
    using assms by (simp add: errInv_def)
qed (use assms in \<open>simp_all add: errInv_def autoSkipNewlines_fields autoSkipNewlines_other_fields nth_append\<close>)

lemma handleBackspace_errInv:
  assumes "errInv s"
  shows "errInv (handleBackspace s)"
proof (cases "typedPositions s = []")
  case True
  then have "\<not> errorActive s" using assms by (simp add: errInv_def)
  then show ?thesis using True by (simp add: handleBackspace_def errInv_def)
next
  case False
  define l where "l = last (typedPositions s)"
  show ?thesis
  proof (cases "errorActive s \<and> l \<le> firstErrorIndex s")
    case True
    then show ?thesis using False by (simp add: handleBackspace_def errInv_def Let_def l_def)
  next
    case nc: False
    show ?thesis
    proof (cases "errorActive s")
      case False
      then show ?thesis using \<open>typedPositions s \<noteq> []\<close>
        by (simp add: handleBackspace_def errInv_def Let_def)
    next
      case True
      then have e: "0 \<le> firstErrorTypedProgress s"
        "nat (firstErrorTypedProgress s) < length (typedPositions s)"
        "typedPositions s ! nat (firstErrorTypedProgress s) = firstErrorIndex s"
        using assms by (simp_all add: errInv_def)
      have gt: "firstErrorIndex s < l" using nc True by simp
      have "nat (firstErrorTypedProgress s) \<noteq> length (typedPositions s) - 1"
      proof
        assume "nat (firstErrorTypedProgress s) = length (typedPositions s) - 1"
        then have "typedPositions s ! nat (firstErrorTypedProgress s) = l"
          using False by (simp add: l_def last_conv_nth)
        with e(3) gt show False by simp
      qed
      then have lt: "nat (firstErrorTypedProgress s) < length (butlast (typedPositions s))"
        using e(2) by simp
      have "butlast (typedPositions s) ! nat (firstErrorTypedProgress s) = firstErrorIndex s"
        using lt e(3) by (simp add: nth_butlast)
      then show ?thesis
        using False lt e(1) nc True
        by (simp add: handleBackspace_def errInv_def Let_def l_def)
    qed
  qed
qed

lemma reachable_errInv: "reachable s \<Longrightarrow> errInv s"
proof (induction rule: reachable.induct)
  case (created t slack autoSkip ranges0 allow)
  show ?case by (simp add: errInv_def createTypingEngine_fields)
next
  case (key s ch)
  show ?case by (rule handleKey_errInv[OF key.IH])
next
  case (backspace s)
  show ?case by (rule handleBackspace_errInv[OF backspace.IH])
qed

lemma filter_ge_nth_sorted:
  fixes xs :: "int list"
  assumes "sorted_wrt (<) xs" "k < length xs"
  shows "filter (\<lambda>p. xs ! k \<le> p) xs = drop k xs"
proof -
  have xs: "xs = take k xs @ drop k xs" by simp
  have a: "\<forall>p \<in> set (take k xs). \<not> xs ! k \<le> p"
  proof
    fix p assume "p \<in> set (take k xs)"
    then obtain j where j: "j < k" "p = xs ! j"
      using assms(2) by (auto simp: in_set_conv_nth)
    then have "xs ! j < xs ! k"
      using sorted_wrt_nth_less[OF assms(1), of j k] assms(2) by simp
    with j show "\<not> xs ! k \<le> p" by simp
  qed
  have b: "\<forall>p \<in> set (drop k xs). xs ! k \<le> p"
  proof
    fix p assume "p \<in> set (drop k xs)"
    then obtain j where j: "j < length xs - k" "p = xs ! (k + j)"
      by (auto simp: in_set_conv_nth)
    have "xs ! k \<le> xs ! (k + j)"
    proof (cases "j = 0")
      case True then show ?thesis by simp
    next
      case False
      then have "xs ! k < xs ! (k + j)"
        using sorted_wrt_nth_less[OF assms(1), of k "k + j"] j(1) by simp
      then show ?thesis by simp
    qed
    with j show "xs ! k \<le> p" by simp
  qed
  have "filter (\<lambda>p. xs ! k \<le> p) xs
        = filter (\<lambda>p. xs ! k \<le> p) (take k xs) @ filter (\<lambda>p. xs ! k \<le> p) (drop k xs)"
    by (metis filter_append xs)
  also have "filter (\<lambda>p. xs ! k \<le> p) (take k xs) = []" using a by (simp add: filter_empty_conv)
  also have "filter (\<lambda>p. xs ! k \<le> p) (drop k xs) = drop k xs" using b by (simp add: filter_id_conv)
  finally show ?thesis by simp
qed

lemma keysSinceError_progress:
  assumes "reachable s" "errorActive s"
  shows "0 \<le> firstErrorTypedProgress s"
    "keysSinceError s = int (length (typedPositions s)) - firstErrorTypedProgress s"
    "1 \<le> keysSinceError s"
proof -
  have e: "0 \<le> firstErrorTypedProgress s"
    "nat (firstErrorTypedProgress s) < length (typedPositions s)"
    "typedPositions s ! nat (firstErrorTypedProgress s) = firstErrorIndex s"
    using reachable_errInv[OF assms(1)] assms(2) by (simp_all add: errInv_def)
  have so: "sorted_wrt (<) (typedPositions s)"
    using reachable_engineInv[OF assms(1)] by (simp add: engineInv_def coreInv_def posInv_def)
  have "filter (\<lambda>p. firstErrorIndex s \<le> p) (typedPositions s)
        = drop (nat (firstErrorTypedProgress s)) (typedPositions s)"
    using filter_ge_nth_sorted[OF so e(2)] by (simp only: e(3))
  then show k: "keysSinceError s = int (length (typedPositions s)) - firstErrorTypedProgress s"
    using e(1,2) by (simp add: keysSinceError_def)
  show "0 \<le> firstErrorTypedProgress s" by (rule e(1))
  show "1 \<le> keysSinceError s" using k e(1,2) by simp
qed

subsection \<open>Keys and backspaces while an error is active\<close>

lemma handleKey_reachable_body:
  assumes r: "reachable s" and ne: "ch \<noteq> []" and nl: "\<not> locked s"
  shows "skipForwardIfNeeded (s\<lparr>typedKeystrokes := typedKeystrokes s + 1\<rparr>)
         = s\<lparr>typedKeystrokes := typedKeystrokes s + 1\<rparr>"
  by (rule skipForwardIfNeeded_id[OF engineInv_counted_key[OF reachable_engineInv[OF r]]])

lemma handleKey_lock:
  assumes r: "reachable s" and ea: "errorActive s" and nl: "\<not> locked s"
    and lt: "cursor s < int (length (text' s))" and ne: "ch \<noteq> []"
    and over: "slackN s < keysSinceError s"
  shows "handleKey s ch = s\<lparr>typedKeystrokes := typedKeystrokes s + 1, locked := True\<rparr>"
proof -
  define s1 where "s1 = s\<lparr>typedKeystrokes := typedKeystrokes s + 1\<rparr>"
  have id1: "skipForwardIfNeeded s1 = s1"
    unfolding s1_def by (rule handleKey_reachable_body[OF r ne nl])
  have p: "0 \<le> firstErrorTypedProgress s"
    "int (length (typedPositions s)) - firstErrorTypedProgress s = keysSinceError s"
    using keysSinceError_progress[OF r ea] by simp_all
  have f: "\<not> locked s1" "cursor s1 < int (length (text' s1))" "errorActive s1"
    "firstErrorTypedProgress s1 = firstErrorTypedProgress s" "typedPositions s1 = typedPositions s"
    "slackN s1 = slackN s"
    using nl lt ea by (simp_all add: s1_def)
  have "handleKey s ch = s1\<lparr>locked := True\<rparr>"
    unfolding handleKey_def Let_def s1_def[symmetric] id1
    using ne f p over by simp
  then show ?thesis by (simp add: s1_def)
qed

lemma handleKey_collateral:
  assumes r: "reachable s" and ea: "errorActive s" and nl: "\<not> locked s"
    and lt: "cursor s < int (length (text' s))" and ne: "ch \<noteq> []"
    and within: "keysSinceError s \<le> slackN s"
  defines "k \<equiv> handleKey s ch"
  shows "collateral k = collateral s + 1" "\<not> locked k" "errorActive k"
    "firstErrorIndex k = firstErrorIndex s"
    "typedPositions k = typedPositions s @ [cursor s]"
    "marks k = (marks s)[nat (cursor s) := COLLATERAL]"
    "cursor s < cursor k" "typedKeystrokes k = typedKeystrokes s + 1"
    "incorrect k = incorrect s"
    "keysSinceError k = keysSinceError s + 1"
proof -
  define s1 where "s1 = s\<lparr>typedKeystrokes := typedKeystrokes s + 1\<rparr>"
  have inv: "engineInv s" by (rule reachable_engineInv[OF r])
  have id1: "skipForwardIfNeeded s1 = s1"
    unfolding s1_def by (rule handleKey_reachable_body[OF r ne nl])
  have p: "0 \<le> firstErrorTypedProgress s"
    "int (length (typedPositions s)) - firstErrorTypedProgress s = keysSinceError s"
    using keysSinceError_progress[OF r ea] by simp_all
  have f: "\<not> locked s1" "cursor s1 < int (length (text' s1))" "errorActive s1"
    "firstErrorTypedProgress s1 = firstErrorTypedProgress s" "typedPositions s1 = typedPositions s"
    "slackN s1 = slackN s"
    using nl lt ea by (simp_all add: s1_def)
  define s3 where "s3 = setMark s1 (cursor s1) COLLATERAL False"
  have k: "k = skipForwardIfNeeded
              (s3\<lparr>typedPositions := typedPositions s3 @ [cursor s3],
                   collateral := collateral s3 + 1,
                   cursor := cursor s3 + 1,
                   typedEnd := cursor s3 + 1\<rparr>)"
    unfolding k_def handleKey_def Let_def s1_def[symmetric] id1 s3_def[symmetric]
    using ne f p within by simp
  show "collateral k = collateral s + 1" by (simp add: k s3_def s1_def)
  show "\<not> locked k" using nl by (simp add: k s3_def s1_def)
  show ea': "errorActive k" using ea by (simp add: k s3_def s1_def)
  show "firstErrorIndex k = firstErrorIndex s" by (simp add: k s3_def s1_def)
  show tp: "typedPositions k = typedPositions s @ [cursor s]" by (simp add: k s3_def s1_def)
  have mi: "length (marks s) = length (text' s)" "length (countedCorrect s) = length (text' s)"
    using inv by (simp_all add: engineInv_def coreInv_def markInv_def)
  have c0: "0 \<le> cursor s" using inv by (simp add: engineInv_def coreInv_cursor_nonneg)
  have "marks s3 = (marks s1)[nat (cursor s1) := COLLATERAL]"
    unfolding s3_def using setMark_marks[of "cursor s1" s1 COLLATERAL False] c0 lt mi
    by (simp add: s1_def)
  then show "marks k = (marks s)[nat (cursor s) := COLLATERAL]" by (simp add: k s1_def)
  have gr: "goodRanges (int (length (text' s))) (skipRanges s)"
    using inv by (simp add: engineInv_def coreInv_def posInv_def)
  have "cursor k = skipForward_loop (skipRanges s) (int (length (text' s))) (cursor s + 1)"
    by (simp add: k skipForwardIfNeeded_cursor s3_def s1_def)
  then show "cursor s < cursor k"
    using skipForward_loop_props[OF gr, of "cursor s + 1"] by simp
  show "typedKeystrokes k = typedKeystrokes s + 1" by (simp add: k s3_def s1_def)
  show "incorrect k = incorrect s" by (simp add: k s3_def s1_def)
  have rk: "reachable k" unfolding k_def by (rule reachable.key[OF r])
  have "firstErrorTypedProgress k = firstErrorTypedProgress s" by (simp add: k s3_def s1_def)
  then show "keysSinceError k = keysSinceError s + 1"
    using keysSinceError_progress(2)[OF rk ea'] p(2) tp by simp
qed

lemma handleKey_first_error:
  assumes r: "reachable s" and ne: "\<not> errorActive s" and ea: "errorActive (handleKey s ch)"
  shows "firstErrorIndex (handleKey s ch) = cursor s" "keysSinceError (handleKey s ch) = 1"
    "incorrect (handleKey s ch) = incorrect s + 1"
    "typedPositions (handleKey s ch) = typedPositions s @ [cursor s]"
proof -
  define s1 where "s1 = s\<lparr>typedKeystrokes := typedKeystrokes s + 1\<rparr>"
  have che: "ch \<noteq> []" using ea ne by (auto simp: handleKey_def)
  have nl: "\<not> locked s" using ea ne che by (auto simp: handleKey_def Let_def)
  have id1: "skipForwardIfNeeded s1 = s1"
    unfolding s1_def by (rule handleKey_reachable_body[OF r che nl])
  have f: "\<not> locked s1" "\<not> errorActive s1" using nl ne by (simp_all add: s1_def)
  define s3 where "s3 = setMark s1 (cursor s1) INCORRECT False"
  define bad where "bad = skipForwardIfNeeded
              (s3\<lparr>typedPositions := typedPositions s3 @ [cursor s3],
                   incorrect := incorrect s3 + 1,
                   errorActive := True,
                   firstErrorIndex := cursor s3,
                   firstErrorTypedProgress := int (length (typedPositions s1)),
                   cursor := cursor s3 + 1,
                   typedEnd := cursor s3 + 1\<rparr>)"
  have "errorActive (handleKey s ch) \<longrightarrow> handleKey s ch = bad"
    unfolding handleKey_def Let_def s1_def[symmetric] id1 s3_def[symmetric] bad_def
    using che f
    by (simp add: autoSkipNewlines_other_fields)
  then have k: "handleKey s ch = bad" using ea by simp
  show "firstErrorIndex (handleKey s ch) = cursor s" by (simp add: k bad_def s3_def s1_def)
  show tp: "typedPositions (handleKey s ch) = typedPositions s @ [cursor s]"
    by (simp add: k bad_def s3_def s1_def)
  show "incorrect (handleKey s ch) = incorrect s + 1" by (simp add: k bad_def s3_def s1_def)
  have "firstErrorTypedProgress (handleKey s ch) = int (length (typedPositions s))"
    by (simp add: k bad_def s3_def s1_def)
  then show "keysSinceError (handleKey s ch) = 1"
    using keysSinceError_progress(2)[OF reachable.key[OF r] ea] tp by simp
qed

lemma handleBackspace_in_error:
  assumes r: "reachable s" and ea: "errorActive s" and ea': "errorActive (handleBackspace s)"
  shows "keysSinceError (handleBackspace s) = keysSinceError s - 1"
    "firstErrorIndex (handleBackspace s) = firstErrorIndex s"
    "typedPositions (handleBackspace s) = butlast (typedPositions s)"
proof -
  have ne: "typedPositions s \<noteq> []"
    using reachable_errInv[OF r] ea by (auto simp: errInv_def)
  have nc: "\<not> last (typedPositions s) \<le> firstErrorIndex s"
  proof
    assume "last (typedPositions s) \<le> firstErrorIndex s"
    then have "\<not> errorActive (handleBackspace s)"
      using ne ea by (simp add: handleBackspace_def Let_def)
    with ea' show False by simp
  qed
  have f: "firstErrorTypedProgress (handleBackspace s) = firstErrorTypedProgress s"
    using nc ne by (simp add: handleBackspace_def Let_def)
  show "firstErrorIndex (handleBackspace s) = firstErrorIndex s"
    using nc ne by (simp add: handleBackspace_def Let_def)
  show tp: "typedPositions (handleBackspace s) = butlast (typedPositions s)"
    using ne by (simp add: handleBackspace_def Let_def)
  show "keysSinceError (handleBackspace s) = keysSinceError s - 1"
proof -
    have "1 \<le> length (typedPositions s)" using ne by (simp add: Suc_le_eq)
    then have "int (length (butlast (typedPositions s))) = int (length (typedPositions s)) - 1"
      by (simp add: of_nat_diff)
    moreover have "keysSinceError (handleBackspace s)
                   = int (length (butlast (typedPositions s))) - firstErrorTypedProgress s"
      using keysSinceError_progress(2)[OF reachable.backspace[OF r] ea'] by (simp only: f tp)
    moreover note keysSinceError_progress(2)[OF r ea]
    ultimately show ?thesis by linarith
  qed
qed

lemma keysSinceError_marks:
  assumes r: "reachable s"
  shows "keysSinceError s = int (card {i. firstErrorIndex s \<le> i \<and> userTyped s i})"
proof -
  have inv: "coreInv s" using reachable_engineInv[OF r] by (simp add: engineInv_def)
  have d: "distinct (typedPositions s)"
    using inv by (simp add: coreInv_def posInv_def strict_sorted_iff)
  have "{i. firstErrorIndex s \<le> i \<and> userTyped s i}
        = set (filter (\<lambda>p. firstErrorIndex s \<le> p) (typedPositions s))"
    using inv by (auto simp: coreInv_def typedInv_def)
  moreover have "distinct (filter (\<lambda>p. firstErrorIndex s \<le> p) (typedPositions s))"
    using d by simp
  ultimately show ?thesis
    using distinct_card[of "filter (\<lambda>p. firstErrorIndex s \<le> p) (typedPositions s)"]
    by (simp only: keysSinceError_def)
qed

lemma keysSinceError_le_distance:
  assumes r: "reachable s" and ea: "errorActive s"
  shows "keysSinceError s \<le> cursor s - firstErrorIndex s"
proof -
  have inv: "coreInv s" using reachable_engineInv[OF r] by (simp add: engineInv_def)
  have d: "distinct (filter (\<lambda>p. firstErrorIndex s \<le> p) (typedPositions s))"
    using inv by (simp add: coreInv_def posInv_def strict_sorted_iff)
  have sub: "set (filter (\<lambda>p. firstErrorIndex s \<le> p) (typedPositions s))
             \<subseteq> {firstErrorIndex s ..< cursor s}"
    using inv by (auto simp: coreInv_def posInv_def)
  have "length (filter (\<lambda>p. firstErrorIndex s \<le> p) (typedPositions s))
        = card (set (filter (\<lambda>p. firstErrorIndex s \<le> p) (typedPositions s)))"
    using distinct_card[OF d] by (simp only:)
  also have "\<dots> \<le> card {firstErrorIndex s ..< cursor s}"
    by (rule card_mono[OF _ sub]) simp
  also have "\<dots> = nat (cursor s - firstErrorIndex s)" by simp
  finally have le: "length (filter (\<lambda>p. firstErrorIndex s \<le> p) (typedPositions s))
                    \<le> nat (cursor s - firstErrorIndex s)" .
  have "1 \<le> keysSinceError s" by (rule keysSinceError_progress(3)[OF r ea])
  then have "1 \<le> length (filter (\<lambda>p. firstErrorIndex s \<le> p) (typedPositions s))"
    unfolding keysSinceError_def by linarith
  with le show ?thesis unfolding keysSinceError_def by linarith
qed

text \<open>
  Claim C5. The slack after an error counts the keys the user typed, not the distance the
  cursor moved. In every state an engine can reach in which an error is active,
  \<open>keysSinceError\<close> is the number of user-typed positions from \<open>firstErrorIndex\<close> on; it is at
  least 1 and at most the distance from \<open>firstErrorIndex\<close> to the cursor. It is 1 after the
  key that starts the error, a key taken as collateral adds 1 to it and a backspace that
  leaves the error active takes 1 from it. A key typed while the error is active, the engine
  not locked and the cursor before the end of the text is taken as collateral (marked
  COLLATERAL at the cursor, which then moves on, the engine not locked) exactly when
  \<open>keysSinceError\<close> is at most \<open>slackN\<close>; otherwise the key only locks the engine. So on
  \<open>"a/*c*/b"\<close> with \<open>slackN = 1\<close> and the skip range \<open>{1, 6}\<close>: after the key \<open>x\<close> the error is
  active with \<open>firstErrorIndex = 0\<close>, the cursor is at 6 and the engine is not locked; the
  cursor is 6 past the error, more than the slack, yet one key was typed since, and the next
  key \<open>b\<close> is taken as collateral (\<open>collateral = 1\<close>, cursor 7) and does not lock.
\<close>

theorem slack_counts_keystrokes:
  "(\<forall>s. reachable s \<and> errorActive s \<longrightarrow>
       keysSinceError s = int (card {i. firstErrorIndex s \<le> i \<and> userTyped s i})
       \<and> 1 \<le> keysSinceError s
       \<and> keysSinceError s \<le> cursor s - firstErrorIndex s)
   \<and> (\<forall>s ch. reachable s \<and> \<not> errorActive s \<and> errorActive (handleKey s ch) \<longrightarrow>
       firstErrorIndex (handleKey s ch) = cursor s \<and> keysSinceError (handleKey s ch) = 1)
   \<and> (\<forall>s ch. reachable s \<and> errorActive s \<and> \<not> locked s
         \<and> cursor s < int (length (text' s)) \<and> ch \<noteq> [] \<and> keysSinceError s \<le> slackN s \<longrightarrow>
       collateral (handleKey s ch) = collateral s + 1
       \<and> \<not> locked (handleKey s ch)
       \<and> marks (handleKey s ch) = (marks s)[nat (cursor s) := COLLATERAL]
       \<and> typedPositions (handleKey s ch) = typedPositions s @ [cursor s]
       \<and> cursor s < cursor (handleKey s ch)
       \<and> errorActive (handleKey s ch)
       \<and> firstErrorIndex (handleKey s ch) = firstErrorIndex s
       \<and> keysSinceError (handleKey s ch) = keysSinceError s + 1)
   \<and> (\<forall>s ch. reachable s \<and> errorActive s \<and> \<not> locked s
         \<and> cursor s < int (length (text' s)) \<and> ch \<noteq> [] \<and> slackN s < keysSinceError s \<longrightarrow>
       handleKey s ch = s\<lparr>typedKeystrokes := typedKeystrokes s + 1, locked := True\<rparr>)
   \<and> (\<forall>s. reachable s \<and> errorActive s \<and> errorActive (handleBackspace s) \<longrightarrow>
       firstErrorIndex (handleBackspace s) = firstErrorIndex s
       \<and> keysSinceError (handleBackspace s) = keysSinceError s - 1)
   \<and> (let s0 = createTypingEngine (js ''a/*c*/b'') (Fin 1) True [\<lparr>start = Fin 1, end' = Fin 6\<rparr>] False;
            s1 = handleKey s0 (js ''x'');
            s2 = handleKey s1 (js ''b'')
        in errorActive s1 \<and> firstErrorIndex s1 = 0 \<and> cursor s1 = 6 \<and> \<not> locked s1
           \<and> cursor s1 - firstErrorIndex s1 > slackN s1
           \<and> keysSinceError s1 = 1
           \<and> collateral s2 = 1 \<and> cursor s2 = 7 \<and> \<not> locked s2)"
proof (intro conjI allI impI)
  fix s
  assume a: "reachable s \<and> errorActive s"
  show "keysSinceError s = int (card {i. firstErrorIndex s \<le> i \<and> userTyped s i})"
    using a by (intro keysSinceError_marks) simp
  show "1 \<le> keysSinceError s" using a keysSinceError_progress(3) by blast
  show "keysSinceError s \<le> cursor s - firstErrorIndex s"
    using a keysSinceError_le_distance by blast
next
  fix s and ch :: jsstring
  assume a: "reachable s \<and> \<not> errorActive s \<and> errorActive (handleKey s ch)"
  show "firstErrorIndex (handleKey s ch) = cursor s"
    using a handleKey_first_error(1) by blast
  show "keysSinceError (handleKey s ch) = 1"
    using a handleKey_first_error(2) by blast
next
  fix s and ch :: jsstring
  assume a: "reachable s \<and> errorActive s \<and> \<not> locked s
         \<and> cursor s < int (length (text' s)) \<and> ch \<noteq> [] \<and> keysSinceError s \<le> slackN s"
  then have h: "reachable s" "errorActive s" "\<not> locked s" "cursor s < int (length (text' s))"
    "ch \<noteq> []" "keysSinceError s \<le> slackN s"
    by simp_all
  show "collateral (handleKey s ch) = collateral s + 1" by (rule handleKey_collateral(1)[OF h])
  show "\<not> locked (handleKey s ch)" by (rule handleKey_collateral(2)[OF h])
  show "marks (handleKey s ch) = (marks s)[nat (cursor s) := COLLATERAL]"
    by (rule handleKey_collateral(6)[OF h])
  show "typedPositions (handleKey s ch) = typedPositions s @ [cursor s]"
    by (rule handleKey_collateral(5)[OF h])
  show "cursor s < cursor (handleKey s ch)" by (rule handleKey_collateral(7)[OF h])
  show "errorActive (handleKey s ch)" by (rule handleKey_collateral(3)[OF h])
  show "firstErrorIndex (handleKey s ch) = firstErrorIndex s" by (rule handleKey_collateral(4)[OF h])
  show "keysSinceError (handleKey s ch) = keysSinceError s + 1"
    by (rule handleKey_collateral(10)[OF h])
next
  fix s and ch :: jsstring
  assume a: "reachable s \<and> errorActive s \<and> \<not> locked s
         \<and> cursor s < int (length (text' s)) \<and> ch \<noteq> [] \<and> slackN s < keysSinceError s"
  then have h: "reachable s" "errorActive s" "\<not> locked s" "cursor s < int (length (text' s))"
    "ch \<noteq> []" "slackN s < keysSinceError s"
    by simp_all
  show "handleKey s ch = s\<lparr>typedKeystrokes := typedKeystrokes s + 1, locked := True\<rparr>"
    by (rule handleKey_lock[OF h])
next
  fix s
  assume a: "reachable s \<and> errorActive s \<and> errorActive (handleBackspace s)"
  then have h: "reachable s" "errorActive s" "errorActive (handleBackspace s)" by simp_all
  show "firstErrorIndex (handleBackspace s) = firstErrorIndex s"
    by (rule handleBackspace_in_error(2)[OF h])
  show "keysSinceError (handleBackspace s) = keysSinceError s - 1"
    by (rule handleBackspace_in_error(1)[OF h])
next
  show "let s0 = createTypingEngine (js ''a/*c*/b'') (Fin 1) True [\<lparr>start = Fin 1, end' = Fin 6\<rparr>] False;
            s1 = handleKey s0 (js ''x'');
            s2 = handleKey s1 (js ''b'')
        in errorActive s1 \<and> firstErrorIndex s1 = 0 \<and> cursor s1 = 6 \<and> \<not> locked s1
           \<and> cursor s1 - firstErrorIndex s1 > slackN s1
           \<and> keysSinceError s1 = 1
           \<and> collateral s2 = 1 \<and> cursor s2 = 7 \<and> \<not> locked s2"
    by code_simp
qed

text \<open>
  On \<open>"ab/*c*/def"\<close> with \<open>slackN = 1\<close> and the skip range \<open>{2, 7}\<close>, after the keys \<open>a\<close> and \<open>x\<close>
  two positions are typed, one of them since the error: the key \<open>d\<close> is collateral, and the
  key after it locks.
\<close>

theorem slack_counts_keystrokes_witness:
  "let s = handleKey (handleKey (createTypingEngine (js ''ab/*c*/def'') (Fin 1) True
                                   [\<lparr>start = Fin 2, end' = Fin 7\<rparr>] False) (js ''a'')) (js ''x'')
   in reachable s \<and> errorActive s \<and> \<not> locked s \<and> firstErrorIndex s = 1 \<and> cursor s = 7
      \<and> typedPositions s = [0, 1] \<and> keysSinceError s = 1 \<and> slackN s = 1
      \<and> collateral (handleKey s (js ''d'')) = 1 \<and> \<not> locked (handleKey s (js ''d''))
      \<and> keysSinceError (handleKey s (js ''d'')) = 2
      \<and> locked (handleKey (handleKey s (js ''d'')) (js ''e''))"
proof -
  define s where "s = handleKey (handleKey (createTypingEngine (js ''ab/*c*/def'') (Fin 1) True
                                   [\<lparr>start = Fin 2, end' = Fin 7\<rparr>] False) (js ''a'')) (js ''x'')"
  define k where "k = handleKey s (js ''d'')"
  have r: "reachable s" unfolding s_def by (intro reachable.key reachable.created)
  have rk: "reachable k" unfolding k_def by (rule reachable.key[OF r])
  have f: "errorActive s" "\<not> locked s" "firstErrorIndex s = 1" "cursor s = 7"
    "typedPositions s = [0, 1]" "keysSinceError s = 1" "slackN s = 1"
    "cursor s < int (length (text' s))" "collateral s = 0"
    unfolding s_def by code_simp+
  have ne: "js ''d'' \<noteq> []" "js ''e'' \<noteq> []" by (simp_all add: js_def)
  have c: "collateral k = collateral s + 1 \<and> \<not> locked k \<and> errorActive k
           \<and> cursor s < cursor k \<and> keysSinceError k = keysSinceError s + 1"
    using slack_counts_keystrokes[THEN conjunct2, THEN conjunct2, THEN conjunct1, rule_format,
            of s "js ''d''"] r f ne
    unfolding k_def by simp
  have fk: "cursor k < int (length (text' k))" "slackN k = 1" unfolding k_def s_def by code_simp+
  have "handleKey k (js ''e'') = k\<lparr>typedKeystrokes := typedKeystrokes k + 1, locked := True\<rparr>"
    using slack_counts_keystrokes[THEN conjunct2, THEN conjunct2, THEN conjunct2, THEN conjunct1,
            rule_format, of k "js ''e''"] rk c f fk ne
    by simp
  then have "locked (handleKey k (js ''e''))" by simp
  then show ?thesis
    using r f c unfolding Let_def s_def[symmetric] k_def[symmetric] by simp
qed

section \<open>Properties of the Python lexer\<close>

lemma pythonAt_loop:
  "pythonAt txt i v \<Longrightarrow>
   pythonLoop txt 0 \<lparr>lexState = code, escaped = False, commentStart = -1, outRanges = []\<rparr> = pythonLoop txt i v"
proof (induction rule: pythonAt.induct)
  case start
  show ?case by simp
next
  case (step i v v' moved)
  have "pythonLoop txt i v = pythonLoop txt (i + moved + 1) v'"
    using step.hyps(2,3) by (subst pythonLoop.simps) simp
  with step.IH show ?case by simp
qed

lemma pythonAt_commentStart:
  "pythonAt txt i v \<Longrightarrow> lexState v = lineComment \<Longrightarrow> 0 \<le> commentStart v"
proof (induction rule: pythonAt.induct)
  case start
  then show ?case by simp
next
  case (step i v v' moved)
  then show ?case
    by (auto simp: pythonStep_def Let_def split: if_splits)
qed

lemma pythonLoop_in_comment:
  "lexState v = lineComment \<Longrightarrow> NL \<notin> set (drop i txt) \<Longrightarrow> pythonLoop txt i v = v"
proof (induction "length txt - i" arbitrary: i)
  case 0
  then show ?case by (subst pythonLoop.simps) simp
next
  case (Suc n)
  then have lt: "i < length txt" by simp
  have "txt ! i \<in> set (drop i txt)"
    using lt by (metis Cons_nth_drop_Suc list.set_intros(1))
  then have ne: "txt ! i \<noteq> NL" using Suc.prems(2) by auto
  have st: "pythonStep txt i v = (v, 0)"
    using Suc.prems(1) ne by (simp add: pythonStep_def)
  have "NL \<notin> set (drop (Suc i) txt)"
    using Suc.prems(2) by (metis drop_Suc in_set_dropD tl_drop set_drop_subset_set_drop subsetD Suc_n_not_le_n nat_le_linear)
  then have "pythonLoop txt (Suc i) v = v"
    using Suc.hyps(1)[of "Suc i"] Suc.hyps(2) Suc.prems(1) by simp
  then show ?case using lt st by (subst pythonLoop.simps) simp
qed


lemma pythonAt_open_comment:
  assumes "pythonAt txt i v" "lexState v = lineComment" "NL \<notin> set (drop i txt)"
  shows "parsePythonCommentRanges txt
         = outRanges v @ [\<lparr>start = commentStart v, end' = int (length txt)\<rparr>]"
proof -
  have "pythonLoop txt 0 \<lparr>lexState = code, escaped = False, commentStart = -1, outRanges = []\<rparr> = v"
    using pythonAt_loop[OF assms(1)] pythonLoop_in_comment[OF assms(2,3)] by simp
  then show ?thesis
    using assms(2) pythonAt_commentStart[OF assms(1,2)]
    by (simp add: parsePythonCommentRanges_def)
qed


lemma startsWithAt_first:
  "startsWithAt txt (c # cs) i \<Longrightarrow> i < length txt \<and> txt ! i = c"
proof -
  assume a: "startsWithAt txt (c # cs) i"
  then have eq: "take (Suc (length cs)) (drop i txt) = c # cs"
    by (simp add: startsWithAt_def slice_def)
  then have ne: "drop i txt \<noteq> []" by auto
  then have lt: "i < length txt" by simp
  have "drop i txt = txt ! i # drop (Suc i) txt"
    using lt by (simp add: Cons_nth_drop_Suc)
  with eq have "txt ! i = c" by simp
  with lt show ?thesis by simp
qed

lemma pythonStep_string_plain:
  "lexState v = singleQuote \<Longrightarrow> \<not> escaped v \<Longrightarrow> txt ! i \<noteq> BACKSLASH \<Longrightarrow> txt ! i \<noteq> QUOTE
   \<Longrightarrow> pythonStep txt i v = (v, 0)"
  by (simp add: pythonStep_def)

lemma pythonStep_string_backslash:
  "lexState v = singleQuote \<Longrightarrow> \<not> escaped v \<Longrightarrow> txt ! i = BACKSLASH
   \<Longrightarrow> pythonStep txt i v = (v\<lparr>escaped := True\<rparr>, 0)"
  by (simp add: pythonStep_def)

lemma pythonStep_string_escaped:
  "lexState v = singleQuote \<Longrightarrow> escaped v \<Longrightarrow> pythonStep txt i v = (v\<lparr>escaped := False\<rparr>, 0)"
  by (simp add: pythonStep_def)

lemma pythonStep_string_close:
  "lexState v = singleQuote \<Longrightarrow> \<not> escaped v \<Longrightarrow> txt ! i = QUOTE
   \<Longrightarrow> pythonStep txt i v = (v\<lparr>lexState := code\<rparr>, 0)"
  by (simp add: pythonStep_def)

lemma pythonStep_code_plain:
  assumes "lexState v = code" "txt ! i \<noteq> QUOTE" "txt ! i \<noteq> DQUOTE" "txt ! i \<noteq> HASH"
  shows "pythonStep txt i v = (v, 0)"
proof -
  have "\<not> startsWithAt txt [QUOTE, QUOTE, QUOTE] i" "\<not> startsWithAt txt [DQUOTE, DQUOTE, DQUOTE] i"
    using assms(2,3) startsWithAt_first by blast+
  then show ?thesis using assms by (simp add: pythonStep_def)
qed

lemma pythonStep_code_hash:
  assumes "lexState v = code" "txt ! i = HASH"
  shows "pythonStep txt i v = (v\<lparr>commentStart := int i, lexState := lineComment\<rparr>, 0)"
proof -
  have "\<not> startsWithAt txt [QUOTE, QUOTE, QUOTE] i" "\<not> startsWithAt txt [DQUOTE, DQUOTE, DQUOTE] i"
    using assms(2) startsWithAt_first by fastforce+
  then show ?thesis using assms by (simp add: pythonStep_def)
qed

lemma pythonStep_code_quote:
  assumes "lexState v = code" "txt ! i = QUOTE" "\<not> startsWithAt txt [QUOTE, QUOTE, QUOTE] i"
  shows "pythonStep txt i v = (v\<lparr>lexState := singleQuote, escaped := False\<rparr>, 0)"
proof -
  have "\<not> startsWithAt txt [DQUOTE, DQUOTE, DQUOTE] i"
    using assms(2) startsWithAt_first by fastforce
  then show ?thesis using assms by (simp add: pythonStep_def)
qed

lemma pythonAt_step0:
  "pythonAt txt i v \<Longrightarrow> i < length txt \<Longrightarrow> pythonStep txt i v = (v', 0) \<Longrightarrow> pythonAt txt (Suc i) v'"
  using pythonAt.step[of "txt" i v v' 0] by simp

lemma pythonAt_in_string:
  "pythonAt txt (length pre) v \<Longrightarrow> lexState v = singleQuote \<Longrightarrow> \<not> escaped v
   \<Longrightarrow> txt = pre @ body @ [QUOTE] @ rest \<Longrightarrow> quotedBody body
   \<Longrightarrow> pythonAt txt (length pre + length body + 1) (v\<lparr>lexState := code\<rparr>)"
proof (induction body arbitrary: pre rule: quotedBody.induct)
  case 1
  have "txt ! length pre = QUOTE" using 1(4) by simp
  moreover have "length pre < length txt" using 1(4) by simp
  ultimately show ?case
    using pythonAt_step0[OF 1(1) _ pythonStep_string_close[OF 1(2,3)]] by simp
next
  case (2 c)
  have c: "txt ! length pre = c" and lt: "length pre < length txt" using 2(4) by simp_all
  have q: "txt ! Suc (length pre) = QUOTE" and lt2: "Suc (length pre) < length txt"
    using 2(4) by (simp_all add: nth_append)
  have "pythonAt txt (Suc (length pre)) v"
    using pythonAt_step0[OF 2(1) lt pythonStep_string_plain[OF 2(2,3)]] c 2(5) by simp
  then show ?case
    using pythonAt_step0[OF _ lt2 pythonStep_string_close[OF 2(2,3) q]] by simp
next
  case (3 c d cs)
  have c: "txt ! length pre = c" and lt: "length pre < length txt" using 3(6) by simp_all
  show ?case
  proof (cases "c = BACKSLASH")
    case True
    have lt2: "Suc (length pre) < length txt" using 3(6) by simp
    have a1: "pythonAt txt (Suc (length pre)) (v\<lparr>escaped := True\<rparr>)"
      using pythonAt_step0[OF 3(3) lt pythonStep_string_backslash[OF 3(4,5)]] c True by simp
    have "pythonStep txt (Suc (length pre)) (v\<lparr>escaped := True\<rparr>) = (v\<lparr>escaped := True\<rparr>\<lparr>escaped := False\<rparr>, 0)"
      using 3(4) by (intro pythonStep_string_escaped) simp_all
    moreover have "v\<lparr>escaped := True\<rparr>\<lparr>escaped := False\<rparr> = v" using 3(5) by simp
    ultimately have a2: "pythonAt txt (length (pre @ [c, d])) v"
      using pythonAt_step0[OF a1 lt2] by simp
    have "pythonAt txt (length (pre @ [c, d]) + length cs + 1) (v\<lparr>lexState := code\<rparr>)"
      using 3(7) True 3(6) by (intro 3(1)[OF True a2 3(4,5)]) simp_all
    then show ?thesis by simp
  next
    case False
    have a1: "pythonAt txt (length (pre @ [c])) v"
      using pythonAt_step0[OF 3(3) lt pythonStep_string_plain[OF 3(4,5)]] c False 3(7) by simp
    have "pythonAt txt (length (pre @ [c]) + length (d # cs) + 1) (v\<lparr>lexState := code\<rparr>)"
      using 3(7) False 3(6) by (intro 3(2)[OF False a1 3(4,5)]) simp_all
    then show ?thesis by simp
  qed
qed

lemma pythonAt_string:
  assumes "pythonAt txt (length pre) v" "lexState v = code"
    "txt = pre @ [QUOTE] @ body @ [QUOTE] @ rest" "quotedBody body"
    "\<not> startsWithAt txt [QUOTE, QUOTE, QUOTE] (length pre)"
  shows "pythonAt txt (length pre + length body + 2) (v\<lparr>escaped := False\<rparr>)"
proof -
  have q: "txt ! length pre = QUOTE" and lt: "length pre < length txt" using assms(3) by simp_all
  have a1: "pythonAt txt (length (pre @ [QUOTE])) (v\<lparr>lexState := singleQuote, escaped := False\<rparr>)"
    using pythonAt_step0[OF assms(1) lt pythonStep_code_quote[OF assms(2) q assms(5)]] by simp
  have "pythonAt txt (length (pre @ [QUOTE]) + length body + 1)
          (v\<lparr>lexState := singleQuote, escaped := False\<rparr>\<lparr>lexState := code\<rparr>)"
    using assms(3,4) by (intro pythonAt_in_string[OF a1, where rest = rest]) simp_all
  moreover have "v\<lparr>lexState := singleQuote, escaped := False\<rparr>\<lparr>lexState := code\<rparr> = v\<lparr>escaped := False\<rparr>"
    using assms(2) by simp
  ultimately show ?thesis by simp
qed

lemma pythonAt_plain:
  "pythonAt txt (length pre) v \<Longrightarrow> lexState v = code \<Longrightarrow> txt = pre @ mid @ rest \<Longrightarrow> plainCode mid
   \<Longrightarrow> pythonAt txt (length pre + length mid) v"
proof (induction mid arbitrary: pre)
  case Nil
  then show ?case by simp
next
  case (Cons c mid)
  have c: "txt ! length pre = c" and lt: "length pre < length txt" using Cons.prems(3) by simp_all
  have pc: "c \<noteq> QUOTE" "c \<noteq> DQUOTE" "c \<noteq> HASH" "plainCode mid"
    using Cons.prems(4) by (simp_all add: plainCode_def)
  have a1: "pythonAt txt (length (pre @ [c])) v"
    using pythonAt_step0[OF Cons.prems(1) lt pythonStep_code_plain[OF Cons.prems(2)]] c pc by simp
  have "pythonAt txt (length (pre @ [c]) + length mid) v"
    using Cons.prems(3) pc(4) by (intro Cons.IH[OF a1 Cons.prems(2)]) simp_all
  then show ?case by simp
qed

lemma pythonAt_hash:
  assumes "pythonAt txt i v" "lexState v = code" "i < length txt" "txt ! i = HASH"
    "NL \<notin> set (drop i txt)"
  shows "parsePythonCommentRanges txt = outRanges v @ [\<lparr>start = int i, end' = int (length txt)\<rparr>]"
proof -
  have a1: "pythonAt txt (Suc i) (v\<lparr>commentStart := int i, lexState := lineComment\<rparr>)"
    using pythonAt_step0[OF assms(1,3) pythonStep_code_hash[OF assms(2,4)]] .
  have "NL \<notin> set (drop (Suc i) txt)"
    using assms(5) by (metis drop_Suc in_set_dropD tl_drop set_drop_subset_set_drop subsetD Suc_n_not_le_n nat_le_linear)
  then show ?thesis using pythonAt_open_comment[OF a1] by simp
qed

lemma python_string_then_comment:
  assumes "plainCode pre" "quotedBody body" "plainCode mid" "NL \<notin> set cm"
  shows "parsePythonCommentRanges (pre @ [QUOTE] @ body @ [QUOTE] @ mid @ [HASH] @ cm)
         = [\<lparr>start = int (length pre + length body + 2 + length mid),
             end' = int (length pre + length body + 2 + length mid + 1 + length cm)\<rparr>]"
proof -
  define txt0 where "txt0 = pre @ [QUOTE] @ body @ [QUOTE] @ mid @ [HASH] @ cm"
  define v0 where "v0 = \<lparr>lexState = code, escaped = False, commentStart = -1, outRanges = []\<rparr>"
  have s0: "pythonAt txt0 (length ([] :: jsstring)) v0" unfolding v0_def by (simp add: pythonAt.start)
  have "pythonAt txt0 (length ([] :: jsstring) + length pre) v0"
    using assms(1) by (intro pythonAt_plain[OF s0, where rest = "[QUOTE] @ body @ [QUOTE] @ mid @ [HASH] @ cm"])
      (simp_all add: v0_def txt0_def)
  then have s1: "pythonAt txt0 (length pre) v0" by simp
  have nt: "\<not> startsWithAt txt0 [QUOTE, QUOTE, QUOTE] (length pre)"
  proof
    assume "startsWithAt txt0 [QUOTE, QUOTE, QUOTE] (length pre)"
    then have e: "take 3 ([QUOTE] @ body @ [QUOTE] @ mid @ [HASH] @ cm) = [QUOTE, QUOTE, QUOTE]"
      by (simp add: startsWithAt_def slice_def txt0_def)
    show False
    proof (cases body)
      case Nil
      with e have "take 1 (mid @ [HASH] @ cm) = [QUOTE]" by simp
      then show False using assms(3) by (cases mid) (simp_all add: plainCode_def)
    next
      case (Cons b bs)
      with e have "b = QUOTE" by simp
      then show False using assms(2) Cons by (cases bs) simp_all
    qed
  qed
  have s2: "pythonAt txt0 (length pre + length body + 2) (v0\<lparr>escaped := False\<rparr>)"
    using assms(2) nt by (intro pythonAt_string[OF s1, where rest = "mid @ [HASH] @ cm"]) (simp_all add: v0_def txt0_def)
  have v0': "v0\<lparr>escaped := False\<rparr> = v0" by (simp add: v0_def)
  have s3: "pythonAt txt0 (length (pre @ [QUOTE] @ body @ [QUOTE])) v0" using s2 v0' by simp
  have "pythonAt txt0 (length (pre @ [QUOTE] @ body @ [QUOTE]) + length mid) v0"
    using assms(3) by (intro pythonAt_plain[OF s3, where rest = "[HASH] @ cm"]) (simp_all add: v0_def txt0_def)
  then have s4: "pythonAt txt0 (length pre + length body + 2 + length mid) v0" by simp
  have d: "drop (length pre + length body + 2 + length mid) txt0 = [HASH] @ cm"
    by (simp add: txt0_def)
  have lt: "length pre + length body + 2 + length mid < length txt0" by (simp add: txt0_def)
  have "hd (drop (length pre + length body + 2 + length mid) txt0) = HASH"
    by (simp only: d) simp
  then have h: "txt0 ! (length pre + length body + 2 + length mid) = HASH"
    by (simp only: hd_drop_conv_nth[OF lt])
  have "parsePythonCommentRanges txt0
        = outRanges v0 @ [\<lparr>start = int (length pre + length body + 2 + length mid), end' = int (length txt0)\<rparr>]"
    using assms(4) h d lt by (intro pythonAt_hash[OF s4]) (simp_all add: v0_def)
  then show ?thesis by (simp add: v0_def txt0_def)
qed

text \<open>
  Claim C7. In Python mode a \<open>#\<close> inside a single-quoted string starts no comment, and a
  line comment that runs to the end of the input is closed at the length of the text.
  Whenever the lexer is in code at the opening quote of a single-quoted string (not the
  first of three quotes), it is in code again just after the closing quote with the start
  and the ranges of comments as they were, whatever the body holds, a \<open>#\<close> or an escaped
  quote included. Whenever it is in code at a \<open>#\<close>, or inside a line comment, and no newline
  follows, the result is the ranges found so far and then the one from the start of that
  comment to the length of the text. So a text made of plain code, a single-quoted string,
  plain code, and a \<open>#\<close> with no newline after it has exactly one comment range, from that
  \<open>#\<close> to the length of the text. A file name whose mode is Python is lexed this way; on the
  27 code units \<open>s = '# not a comment'\<close>, newline, \<open># yes\<close> and the file name \<open>x.py\<close> (which
  \<open>toLowerCase\<close> leaves as it is), \<open>parseCommentRangesForFile\<close> returns exactly \<open>{22, 27}\<close>.
\<close>

theorem python_string_and_open_comment:
  "(\<forall>txt pre body rest v.
      pythonAt txt (length pre) v \<and> lexState v = code
      \<and> txt = pre @ [QUOTE] @ body @ [QUOTE] @ rest \<and> quotedBody body
      \<and> \<not> startsWithAt txt [QUOTE, QUOTE, QUOTE] (length pre)
      \<longrightarrow> pythonAt txt (length pre + length body + 2) (v\<lparr>escaped := False\<rparr>))
   \<and> (\<forall>txt i v.
      pythonAt txt i v \<and> lexState v = code \<and> i < length txt \<and> txt ! i = HASH
      \<and> NL \<notin> set (drop i txt)
      \<longrightarrow> parsePythonCommentRanges txt
          = outRanges v @ [\<lparr>start = int i, end' = int (length txt)\<rparr>])
   \<and> (\<forall>txt i v.
      pythonAt txt i v \<and> lexState v = lineComment \<and> NL \<notin> set (drop i txt)
      \<longrightarrow> parsePythonCommentRanges txt
          = outRanges v @ [\<lparr>start = commentStart v, end' = int (length txt)\<rparr>])
   \<and> (\<forall>pre body mid cm.
      plainCode pre \<and> quotedBody body \<and> plainCode mid \<and> NL \<notin> set cm
      \<longrightarrow> parsePythonCommentRanges (pre @ [QUOTE] @ body @ [QUOTE] @ mid @ [HASH] @ cm)
          = [\<lparr>start = int (length pre + length body + 2 + length mid),
              end' = int (length (pre @ [QUOTE] @ body @ [QUOTE] @ mid @ [HASH] @ cm))\<rparr>])
   \<and> (\<forall>toLowerCase txt fileName.
      detectCommentMode toLowerCase fileName = Python
      \<longrightarrow> parseCommentRangesForFile toLowerCase txt fileName = parsePythonCommentRanges txt)
   \<and> (\<forall>toLowerCase.
      toLowerCase (js ''x.py'') = js ''x.py''
      \<longrightarrow> parseCommentRangesForFile toLowerCase
            (js ''s = '' @ [QUOTE] @ js ''# not a comment'' @ [QUOTE] @ js ''\<newline># yes'') (js ''x.py'')
          = [\<lparr>start = 22, end' = 27\<rparr>])
   \<and> length (js ''s = '' @ [QUOTE] @ js ''# not a comment'' @ [QUOTE] @ js ''\<newline># yes'') = 27"
proof (intro conjI allI impI)
  fix t pre body rest v
  assume "pythonAt t (length pre) v \<and> lexState v = code
      \<and> t = pre @ [QUOTE] @ body @ [QUOTE] @ rest \<and> quotedBody body
      \<and> \<not> startsWithAt t [QUOTE, QUOTE, QUOTE] (length pre)"
  then show "pythonAt t (length pre + length body + 2) (v\<lparr>escaped := False\<rparr>)"
    using pythonAt_string[of t pre v body rest] by blast
next
  fix t i v
  assume "pythonAt t i v \<and> lexState v = code \<and> i < length t \<and> t ! i = HASH
      \<and> NL \<notin> set (drop i t)"
  then show "parsePythonCommentRanges t
          = outRanges v @ [\<lparr>start = int i, end' = int (length t)\<rparr>]"
    using pythonAt_hash[of t i v] by blast
next
  fix t i v
  assume "pythonAt t i v \<and> lexState v = lineComment \<and> NL \<notin> set (drop i t)"
  then show "parsePythonCommentRanges t
          = outRanges v @ [\<lparr>start = commentStart v, end' = int (length t)\<rparr>]"
    using pythonAt_open_comment[of t i v] by blast
next
  fix pre body mid cm
  assume "plainCode pre \<and> quotedBody body \<and> plainCode mid \<and> NL \<notin> set cm"
  then show "parsePythonCommentRanges (pre @ [QUOTE] @ body @ [QUOTE] @ mid @ [HASH] @ cm)
          = [\<lparr>start = int (length pre + length body + 2 + length mid),
              end' = int (length (pre @ [QUOTE] @ body @ [QUOTE] @ mid @ [HASH] @ cm))\<rparr>]"
    using python_string_then_comment[of pre body mid cm] by simp
next
  fix toLowerCase :: "jsstring \<Rightarrow> jsstring" and t fileName
  assume "detectCommentMode toLowerCase fileName = Python"
  then show "parseCommentRangesForFile toLowerCase t fileName = parsePythonCommentRanges t"
    by (simp add: parseCommentRangesForFile_def)
next
  fix toLowerCase :: "jsstring \<Rightarrow> jsstring"
  assume lc: "toLowerCase (js ''x.py'') = js ''x.py''"
  have "getFileExtensionLower toLowerCase (js ''x.py'') = js ''py''"
    unfolding getFileExtensionLower_def lc by code_simp
  then have m: "detectCommentMode toLowerCase (js ''x.py'') = Python"
    by (simp add: detectCommentMode_def)
  have "parsePythonCommentRanges
          (js ''s = '' @ [QUOTE] @ js ''# not a comment'' @ [QUOTE] @ js ''\<newline># yes'')
        = [\<lparr>start = 22, end' = 27\<rparr>]"
    by code_simp
  with m show "parseCommentRangesForFile toLowerCase
            (js ''s = '' @ [QUOTE] @ js ''# not a comment'' @ [QUOTE] @ js ''\<newline># yes'') (js ''x.py'')
          = [\<lparr>start = 22, end' = 27\<rparr>]"
    by (simp only: parseCommentRangesForFile_def Let_def) simp
next
  show "length (js ''s = '' @ [QUOTE] @ js ''# not a comment'' @ [QUOTE] @ js ''\<newline># yes'') = 27"
    by code_simp
qed

text \<open>
  The string \<open>'a\'# x'\<close>, whose body holds an escaped quote and then a \<open>#\<close>, followed by a
  comment; a comment alone; and the file name \<open>A.PY\<close>.
\<close>

theorem python_string_and_open_comment_witness:
  "quotedBody (js ''a'' @ [BACKSLASH, QUOTE] @ js ''# x'')
   \<and> pythonAt ([QUOTE] @ (js ''a'' @ [BACKSLASH, QUOTE] @ js ''# x'') @ [QUOTE] @ js '' # c'') 8
        \<lparr>lexState = code, escaped = False, commentStart = -1, outRanges = []\<rparr>
   \<and> parsePythonCommentRanges (js ''x = 1 # c'') = [\<lparr>start = 6, end' = 9\<rparr>]
   \<and> parsePythonCommentRanges
        (js ''s = '' @ [QUOTE] @ (js ''a'' @ [BACKSLASH, QUOTE] @ js ''# x'') @ [QUOTE] @ js '' '' @ [HASH] @ js '' c'')
      = [\<lparr>start = 13, end' = 16\<rparr>]
   \<and> parseCommentRangesForFile asciiLowerCase (js ''# c'') (js ''A.PY'') = [\<lparr>start = 0, end' = 3\<rparr>]
   \<and> parseCommentRangesForFile asciiLowerCase
        (js ''s = '' @ [QUOTE] @ js ''# not a comment'' @ [QUOTE] @ js ''\<newline># yes'') (js ''x.py'')
      = [\<lparr>start = 22, end' = 27\<rparr>]"
proof -
  note R = python_string_and_open_comment
  let ?init = "\<lparr>lexState = code, escaped = False, commentStart = -1, outRanges = []\<rparr>"
  let ?body = "js ''a'' @ [BACKSLASH, QUOTE] @ js ''# x''"
  have qb: "quotedBody ?body" by code_simp
  have r1: "pythonAt ([QUOTE] @ ?body @ [QUOTE] @ js '' # c'') 8 ?init"
  proof -
    let ?t = "[QUOTE] @ ?body @ [QUOTE] @ js '' # c''"
    have a: "pythonAt ?t (length ([] :: jsstring)) ?init" by (simp add: pythonAt.start)
    have b: "?t = [] @ [QUOTE] @ ?body @ [QUOTE] @ js '' # c''" by simp
    have c: "\<not> startsWithAt ?t [QUOTE, QUOTE, QUOTE] (length ([] :: jsstring))" by code_simp
    have "pythonAt ?t (length ([] :: jsstring) + length ?body + 2) (?init\<lparr>escaped := False\<rparr>)"
      by (rule R[THEN conjunct1, rule_format, of ?t "[]" ?init ?body "js '' # c''"])
        (intro conjI a b c qb, simp)
    moreover have "length ([] :: jsstring) + length ?body + 2 = 8" by (simp add: js_def)
    moreover have "?init\<lparr>escaped := False\<rparr> = ?init" by simp
    ultimately show ?thesis by (simp only:)
  qed
  have r2: "parsePythonCommentRanges (js ''x = 1 # c'') = [\<lparr>start = 6, end' = 9\<rparr>]"
  proof -
    let ?t = "js ''x = 1 # c''"
    have "pythonAt ?t (length ([] :: jsstring)) ?init" by (simp add: pythonAt.start)
    then have "pythonAt ?t (length ([] :: jsstring) + length (js ''x = 1 '')) ?init"
      by (rule pythonAt_plain[where rest = "js ''# c''"]) (simp_all add: plainCode_def js_def)
    moreover have "length ([] :: jsstring) + length (js ''x = 1 '') = 6" by (simp add: js_def)
    ultimately have a: "pythonAt ?t 6 ?init" by (simp only:)
    have "parsePythonCommentRanges ?t = outRanges ?init @ [\<lparr>start = int 6, end' = int (length ?t)\<rparr>]"
      by (rule R[THEN conjunct2, THEN conjunct1, rule_format, of ?t 6 ?init])
        (intro conjI a, simp_all add: js_def)
    then show ?thesis by (simp add: js_def)
  qed
  have r4: "parsePythonCommentRanges
        (js ''s = '' @ [QUOTE] @ ?body @ [QUOTE] @ js '' '' @ [HASH] @ js '' c'')
      = [\<lparr>start = 13, end' = 16\<rparr>]"
  proof -
    have "plainCode (js ''s = '')" "plainCode (js '' '')" "NL \<notin> set (js '' c'')"
      by (simp_all add: plainCode_def js_def)
    then show ?thesis
      using R[THEN conjunct2, THEN conjunct2, THEN conjunct2, THEN conjunct1, rule_format,
              of "js ''s = ''" ?body "js '' ''" "js '' c''"] qb
      by (simp add: js_def)
  qed
  have m: "detectCommentMode asciiLowerCase (js ''A.PY'') = Python" by code_simp
  have r3: "parsePythonCommentRanges (js ''# c'') = [\<lparr>start = 0, end' = 3\<rparr>]"
  proof -
    let ?t = "js ''# c''"
    let ?v = "?init\<lparr>commentStart := int 0, lexState := lineComment\<rparr>"
    have "pythonStep ?t 0 ?init = (?v, 0)"
      by (rule pythonStep_code_hash) (simp_all add: js_def)
    then have "pythonAt ?t (0 + 0 + 1) ?v"
      by (intro pythonAt.step[OF pythonAt.start]) (simp_all add: js_def)
    then have a: "pythonAt ?t 1 ?v" by simp
    have "parsePythonCommentRanges ?t = outRanges ?v @ [\<lparr>start = commentStart ?v, end' = int (length ?t)\<rparr>]"
      by (rule R[THEN conjunct2, THEN conjunct2, THEN conjunct1, rule_format, of ?t 1 ?v])
        (intro conjI a, simp_all add: js_def)
    then show ?thesis by (simp add: js_def)
  qed
  have r5: "parseCommentRangesForFile asciiLowerCase (js ''# c'') (js ''A.PY'') = [\<lparr>start = 0, end' = 3\<rparr>]"
    using R[THEN conjunct2, THEN conjunct2, THEN conjunct2, THEN conjunct2, THEN conjunct1, rule_format,
            of asciiLowerCase "js ''A.PY''" "js ''# c''"] m r3
    by simp
  have lc: "asciiLowerCase (js ''x.py'') = js ''x.py''" by code_simp
  have r6: "parseCommentRangesForFile asciiLowerCase
        (js ''s = '' @ [QUOTE] @ js ''# not a comment'' @ [QUOTE] @ js ''\<newline># yes'') (js ''x.py'')
      = [\<lparr>start = 22, end' = 27\<rparr>]"
    using R[THEN conjunct2, THEN conjunct2, THEN conjunct2, THEN conjunct2, THEN conjunct2,
            THEN conjunct1, rule_format, of asciiLowerCase] lc
    by blast
  show ?thesis using qb r1 r2 r4 r5 r6 by blast
qed

end
